theory Spec2Isabelle
  imports Main "HOL-Library.AList" "HOL-Library.Char_ord" "HOL-Library.List_Lexorder"
begin

section \<open>The statistics proxy of server.js\<close>

text \<open>
  The development embeds the reconciliation and aggregation pipeline of
  \<^verbatim>\<open>src/server.js\<close>: the token cache (\<^verbatim>\<open>getAccessToken\<close>), the two
  adapters (\<^verbatim>\<open>adaptItemsStats\<close>, \<^verbatim>\<open>adaptCallsStats\<close>), the merge by date
  inside the \<^verbatim>\<open>/stats\<close> handler, and the period aggregator
  (\<^verbatim>\<open>groupByPeriod\<close>).

  Numbers are modelled as \<open>int\<close>: the counters of the upstream service are
  integers far below \<open>2^53\<close>, where the arithmetic of JavaScript numbers is
  exact integer arithmetic.
\<close>

subsection \<open>Errors\<close>

text \<open>The exceptions the modelled code can raise, as values.\<close>

datatype error =
    RangeError      \<comment> \<open>\<^verbatim>\<open>toISOString\<close> of an invalid \<^verbatim>\<open>Date\<close>\<close>
  | TypeError       \<comment> \<open>property read on \<^verbatim>\<open>null\<close>/\<^verbatim>\<open>undefined\<close>, iteration of a non-iterable\<close>
  | SyntaxError     \<comment> \<open>\<^verbatim>\<open>r.json()\<close> on a body that is not JSON\<close>
  | FetchError      \<comment> \<open>\<^verbatim>\<open>fetch\<close> rejected (network failure)\<close>
  | OAuthError nat string  \<comment> \<open>\<^verbatim>\<open>new Error(`OAuth error ${r.status}: ${txt}`)\<close>\<close>

subsection \<open>The calendar of the \<^verbatim>\<open>Date\<close> built-in\<close>

text \<open>
  Every \<^verbatim>\<open>Date\<close> of the program is built from \<^verbatim>\<open>r.date + "T00:00:00Z"\<close>
  and is only moved by whole days, so its time value is a whole number of days
  since 1970-01-01 (UTC), or \<^verbatim>\<open>NaN\<close> for an invalid date. A date is
  therefore an \<open>int option\<close>: \<open>Some n\<close> is day number \<open>n\<close>, \<open>None\<close> is
  \<^verbatim>\<open>Invalid Date\<close>. The day arithmetic follows the ECMAScript abstract
  operations of the same names.
\<close>

type_synonym jsdate = "int option"

definition DayFromYear :: "int \<Rightarrow> int" where
  "DayFromYear y =
     365 * (y - 1970) + (y - 1969) div 4 - (y - 1901) div 100 + (y - 1601) div 400"

definition DaysInYear :: "int \<Rightarrow> int" where
  "DaysInYear y =
     (if y mod 4 \<noteq> 0 then 365
      else if y mod 100 \<noteq> 0 then 366
      else if y mod 400 \<noteq> 0 then 365
      else 366)"

definition InLeapYear :: "int \<Rightarrow> int" where
  "InLeapYear y = (if DaysInYear y = 366 then 1 else 0)"

text \<open>
  \<^verbatim>\<open>YearFromTime\<close>: the largest year whose first day is not after day \<open>n\<close>.
  It is computed from the mean length of a Gregorian year (146097 days in 400
  years) and corrected by at most one year.
\<close>

definition YearFromDay :: "int \<Rightarrow> int" where
  "YearFromDay n =
     (let y = 1970 + (400 * n) div 146097
      in if DayFromYear (y + 1) \<le> n then y + 1
         else if DayFromYear y \<le> n then y
         else y - 1)"

text \<open>The day number, within its year, on which month \<open>m\<close> (0 to 11) starts.\<close>

definition MonthStart :: "int \<Rightarrow> int \<Rightarrow> int" where
  "MonthStart leap m =
     (if m = 0 then 0 else if m = 1 then 31 else if m = 2 then 59 + leap
      else if m = 3 then 90 + leap else if m = 4 then 120 + leap
      else if m = 5 then 151 + leap else if m = 6 then 181 + leap
      else if m = 7 then 212 + leap else if m = 8 then 243 + leap
      else if m = 9 then 273 + leap else if m = 10 then 304 + leap
      else 334 + leap)"

definition MonthFromDay :: "int \<Rightarrow> int" where
  "MonthFromDay n =
     (let y = YearFromDay n; d = n - DayFromYear y; leap = InLeapYear y
      in if d < 31 then 0 else if d < 59 + leap then 1 else if d < 90 + leap then 2
         else if d < 120 + leap then 3 else if d < 151 + leap then 4
         else if d < 181 + leap then 5 else if d < 212 + leap then 6
         else if d < 243 + leap then 7 else if d < 273 + leap then 8
         else if d < 304 + leap then 9 else if d < 334 + leap then 10
         else 11)"

definition DateFromDay :: "int \<Rightarrow> int" where
  "DateFromDay n =
     (let y = YearFromDay n
      in n - DayFromYear y - MonthStart (InLeapYear y) (MonthFromDay n) + 1)"

definition WeekDay :: "int \<Rightarrow> int" where
  "WeekDay n = (n + 4) mod 7"

text \<open>
  \<^verbatim>\<open>MakeDay(year, month, date)\<close> for a month in 0 to 11; the date may lie
  outside the month (\<^verbatim>\<open>setUTCDate\<close> relies on this).
\<close>

definition MakeDay :: "int \<Rightarrow> int \<Rightarrow> int \<Rightarrow> int" where
  "MakeDay y m dt = DayFromYear y + MonthStart (InLeapYear y) m + dt - 1"

definition DaysInMonth :: "int \<Rightarrow> int \<Rightarrow> int" where
  "DaysInMonth y m =
     (if m = 1 then 28 + InLeapYear y
      else if m = 3 \<or> m = 5 \<or> m = 8 \<or> m = 10 then 30
      else 31)"


subsection \<open>Strings of digits\<close>

definition digit_char :: "nat \<Rightarrow> char" where
  "digit_char k = char_of (48 + k)"

definition digit_val :: "char \<Rightarrow> nat option" where
  "digit_val c =
     (let k = (of_char c :: nat) in if 48 \<le> k \<and> k \<le> 57 then Some (k - 48) else None)"

text \<open>\<^verbatim>\<open>String(n)\<close> for a natural number, and for an integer.\<close>

fun show_nat :: "nat \<Rightarrow> string" where
  "show_nat n = (if n < 10 then [digit_char n] else show_nat (n div 10) @ [digit_char (n mod 10)])"

declare show_nat.simps [simp del]

definition show_int :: "int \<Rightarrow> string" where
  "show_int i = (if i < 0 then CHR ''-'' # show_nat (nat (- i)) else show_nat (nat i))"

text \<open>\<^verbatim>\<open>s.padStart(w, "0")\<close>.\<close>

definition padStart :: "nat \<Rightarrow> string \<Rightarrow> string" where
  "padStart w s = replicate (w - length s) CHR ''0'' @ s"

text \<open>The number written by a string of decimal digits, \<open>None\<close> if another character occurs.\<close>

fun digits_val :: "nat \<Rightarrow> string \<Rightarrow> nat option" where
  "digits_val acc [] = Some acc"
| "digits_val acc (c # cs) =
     (case digit_val c of None \<Rightarrow> None | Some k \<Rightarrow> digits_val (10 * acc + k) cs)"

subsection \<open>Constructing and printing dates\<close>

text \<open>
  \<^verbatim>\<open>new Date(s)\<close> for the strings the program builds, \<^verbatim>\<open>YYYY-MM-DD\<close>
  followed by \<^verbatim>\<open>T00:00:00Z\<close>. A string of this form that names a day of
  the calendar yields that day; a month outside 01 to 12 or a day outside the
  month is an illegal element value and yields \<^verbatim>\<open>Invalid Date\<close>, as does
  every string that is not of this form. The engine of the program also
  reads shorter forms (\<^verbatim>\<open>2024-01\<close>), years with a sign and six digits,
  and a day up to 31 in any month, which it rolls over into the next month;
  these strings are outside the model, and the results below are stated for
  calendar dates, on which the model and the engine agree.
\<close>

definition new_Date :: "string \<Rightarrow> jsdate" where
  "new_Date s =
     (if length s = 20 \<and> drop 10 s = ''T00:00:00Z'' \<and> s ! 4 = CHR ''-'' \<and> s ! 7 = CHR ''-''
      then (case (digits_val 0 (take 4 s), digits_val 0 (take 2 (drop 5 s)),
                  digits_val 0 (take 2 (drop 8 s))) of
              (Some y, Some m, Some d) \<Rightarrow>
                if 1 \<le> m \<and> m \<le> 12 \<and> 1 \<le> d \<and> int d \<le> DaysInMonth (int y) (int m - 1)
                then Some (MakeDay (int y) (int m - 1) (int d))
                else None
            | _ \<Rightarrow> None)
      else None)"

text \<open>
  \<^verbatim>\<open>d.toISOString()\<close>: years 0 to 9999 are written with four digits, other
  years with a sign and six digits; an invalid date raises \<^verbatim>\<open>RangeError\<close>.
\<close>

definition iso_year :: "int \<Rightarrow> string" where
  "iso_year y =
     (if 0 \<le> y \<and> y \<le> 9999 then padStart 4 (show_nat (nat y))
      else (if y < 0 then CHR ''-'' else CHR ''+'') # padStart 6 (show_nat (nat \<bar>y\<bar>)))"

definition toISOString :: "jsdate \<Rightarrow> error + string" where
  "toISOString d =
     (case d of
        None \<Rightarrow> Inl RangeError
      | Some n \<Rightarrow>
          Inr (iso_year (YearFromDay n) @ ''-''
               @ padStart 2 (show_nat (nat (MonthFromDay n + 1))) @ ''-''
               @ padStart 2 (show_nat (nat (DateFromDay n))) @ ''T00:00:00.000Z''))"

text \<open>\<^verbatim>\<open>tmp.setUTCDate(tmp.getUTCDate() - wd)\<close> with \<^verbatim>\<open>wd = (tmp.getUTCDay() + 6) % 7\<close>.\<close>

definition to_monday :: "jsdate \<Rightarrow> jsdate" where
  "to_monday d =
     (case d of
        None \<Rightarrow> None
      | Some n \<Rightarrow>
          (let wd = (WeekDay n + 6) mod 7
           in Some (MakeDay (YearFromDay n) (MonthFromDay n) (DateFromDay n - wd))))"

subsection \<open>Rows and buckets\<close>

text \<open>
  A row is an object with a \<^verbatim>\<open>date\<close> and five counters. In a row a counter
  is a number, or \<^verbatim>\<open>null\<close> or missing (\<open>None\<close>; the program reads both
  through \<^verbatim>\<open>|| 0\<close>). In a bucket of the aggregator every counter is a number.
\<close>

record ('d, 'n) stat =
  date :: 'd
  views :: 'n
  clicks :: 'n
  contacts :: 'n
  calls :: 'n
  sales :: 'n

type_synonym row = "(string, int option) stat"
type_synonym bucket = "(string, int) stat"

text \<open>\<^verbatim>\<open>x || 0\<close> for a counter.\<close>

definition or0 :: "int option \<Rightarrow> int" where
  "or0 x = (case x of None \<Rightarrow> 0 | Some n \<Rightarrow> n)"

subsection \<open>\<^verbatim>\<open>groupByPeriod\<close>\<close>

text \<open>
  Lines 52 to 61: the bucket key, from the string \<open>s\<close> handed to
  \<^verbatim>\<open>new Date\<close>, which is \<^verbatim>\<open>r.date + "T00:00:00Z"\<close>.
\<close>

definition period_key :: "string \<Rightarrow> string \<Rightarrow> error + string" where
  "period_key period s =
     (let d = new_Date s
      in if period = ''week'' then
           (case toISOString (to_monday d) of Inl e \<Rightarrow> Inl e | Inr s \<Rightarrow> Inr (take 10 s))
         else if period = ''month'' then
           (case d of
              None \<Rightarrow> Inr ''NaN-NaN-01''
            | Some n \<Rightarrow>
                Inr (show_int (YearFromDay n) @ ''-''
                     @ padStart 2 (show_nat (nat (MonthFromDay n + 1))) @ ''-01''))
         else
           (case toISOString d of Inl e \<Rightarrow> Inl e | Inr s \<Rightarrow> Inr (take 10 s)))"

definition bucket_key :: "string \<Rightarrow> row \<Rightarrow> error + string" where
  "bucket_key period r = period_key period (date r @ ''T00:00:00Z'')"

definition new_bucket :: "string \<Rightarrow> bucket" where
  "new_bucket key = \<lparr>date = key, views = 0, clicks = 0, contacts = 0, calls = 0, sales = 0\<rparr>"

text \<open>Lines 65 to 69: the five \<^verbatim>\<open>+=\<close> on the bucket of the row.\<close>

definition absorb :: "bucket \<Rightarrow> row \<Rightarrow> bucket" where
  "absorb acc r =
     acc\<lparr>views := views acc + or0 (views r),
         clicks := clicks acc + or0 (clicks r),
         contacts := contacts acc + or0 (contacts r),
         calls := calls acc + or0 (calls r),
         sales := sales acc + or0 (sales r)\<rparr>"

text \<open>
  The \<^verbatim>\<open>Map\<close> is an association list in insertion order: \<^verbatim>\<open>map.set\<close> is
  \<^const>\<open>AList.update\<close> (the value of a present key is replaced where it
  stands, a new key is appended), \<^verbatim>\<open>map.get\<close> is \<^const>\<open>map_of\<close>.
  The loop over the rows, with the map as its state:
\<close>

fun group_loop :: "string \<Rightarrow> (string \<times> bucket) list \<Rightarrow> row list
                   \<Rightarrow> error + (string \<times> bucket) list" where
  "group_loop period m [] = Inr m"
| "group_loop period m (r # rs) =
     (case bucket_key period r of
        Inl e \<Rightarrow> Inl e
      | Inr key \<Rightarrow>
          (let m1 = (if map_of m key = None then AList.update key (new_bucket key) m else m)
           in case map_of m1 key of
                None \<Rightarrow> Inl TypeError
              | Some acc \<Rightarrow> group_loop period (AList.update key (absorb acc r) m1) rs))"

text \<open>
  Line 71: the values of the map, sorted by \<^verbatim>\<open>a.date.localeCompare(b.date)\<close>.
  On the characters of bucket keys (digits, \<^verbatim>\<open>-\<close>, \<^verbatim>\<open>+\<close> and the letters of
  \<^verbatim>\<open>NaN\<close>) the comparison is the lexicographic order of the character
  codes; the sort of the engine is stable, as \<^const>\<open>sort_key\<close> is.
\<close>

definition groupByPeriod :: "row list \<Rightarrow> string \<Rightarrow> error + bucket list" where
  "groupByPeriod rows period =
     (case group_loop period [] rows of
        Inl e \<Rightarrow> Inl e
      | Inr m \<Rightarrow> Inr (sort_key date (map snd m)))"


text \<open>A bucket read as a row again, when the output of the aggregator is its input.\<close>

definition as_row :: "bucket \<Rightarrow> row" where
  "as_row b =
     \<lparr>date = date b, views = Some (views b), clicks = Some (clicks b),
      contacts = Some (contacts b), calls = Some (calls b), sales = Some (sales b)\<rparr>"

text \<open>A calendar date \<^verbatim>\<open>YYYY-MM-DD\<close>: the date the \<^verbatim>\<open>Date\<close> constructor accepts.\<close>

definition valid_date :: "string \<Rightarrow> bool" where
  "valid_date s = (new_Date (s @ ''T00:00:00Z'') \<noteq> None)"

subsection \<open>The merge by date of the \<^verbatim>\<open>/stats\<close> handler\<close>

text \<open>
  Lines 182 to 188. \<^verbatim>\<open>new Map(rows.map(r=>[r.date, r]))\<close> sets the entries
  from left to right. A call pair \<^verbatim>\<open>{date, calls}\<close> is a row whose other
  counters are missing. The sort of line 188 compares the dates as the sort
  of the aggregator does (see \<open>groupByPeriod\<close> above).
\<close>

definition rows_map :: "row list \<Rightarrow> (string \<times> row) list" where
  "rows_map rows = foldl (\<lambda>m r. AList.update (date r) r m) [] rows"

definition date_only :: "string \<Rightarrow> row" where
  "date_only d =
     \<lparr>date = d, views = None, clicks = None, contacts = None, calls = None, sales = None\<rparr>"

fun merge_loop :: "(string \<times> row) list \<Rightarrow> row list \<Rightarrow> (string \<times> row) list" where
  "merge_loop m [] = m"
| "merge_loop m (c # cs) =
     (let t = (case map_of m (date c) of None \<Rightarrow> date_only (date c) | Some t \<Rightarrow> t);
          t' = t\<lparr>calls := Some (or0 (calls t) + or0 (calls c))\<rparr>
      in merge_loop (AList.update (date c) t' m) cs)"

definition merge :: "row list \<Rightarrow> row list \<Rightarrow> row list" where
  "merge rows cs = sort_key date (map snd (merge_loop (rows_map rows) cs))"

subsection \<open>JSON values\<close>

text \<open>
  The value \<^verbatim>\<open>r.json()\<close> resolves to. An object is the list of its
  properties, read with \<^const>\<open>map_of\<close>. A JavaScript value that may be
  \<^verbatim>\<open>undefined\<close> is a \<open>json option\<close>.
\<close>

datatype json =
    JNull
  | JBool bool
  | JNum int
  | JStr string
  | JArr "json list"
  | JObj "(string \<times> json) list"

text \<open>\<^verbatim>\<open>x.k\<close> for a value that is neither \<^verbatim>\<open>null\<close> nor \<^verbatim>\<open>undefined\<close>.\<close>

definition get :: "json \<Rightarrow> string \<Rightarrow> json option" where
  "get x k = (case x of JObj kvs \<Rightarrow> map_of kvs k | _ \<Rightarrow> None)"

text \<open>\<^verbatim>\<open>x.k\<close>, which throws on \<^verbatim>\<open>null\<close>, and \<^verbatim>\<open>x?.k\<close>, which does not.\<close>

definition strict_get :: "json \<Rightarrow> string \<Rightarrow> error + json option" where
  "strict_get x k = (case x of JNull \<Rightarrow> Inl TypeError | _ \<Rightarrow> Inr (get x k))"

definition opt_get :: "json \<Rightarrow> string \<Rightarrow> json option" where
  "opt_get x k = (case x of JNull \<Rightarrow> None | _ \<Rightarrow> get x k)"

definition truthy :: "json option \<Rightarrow> bool" where
  "truthy v =
     (case v of
        None \<Rightarrow> False
      | Some JNull \<Rightarrow> False
      | Some (JBool b) \<Rightarrow> b
      | Some (JNum n) \<Rightarrow> n \<noteq> 0
      | Some (JStr s) \<Rightarrow> s \<noteq> []
      | Some (JArr _) \<Rightarrow> True
      | Some (JObj _) \<Rightarrow> True)"

text \<open>\<^verbatim>\<open>a || b\<close> and \<^verbatim>\<open>a ?? b\<close>.\<close>

definition js_or :: "json option \<Rightarrow> json option \<Rightarrow> json option" where
  "js_or a b = (if truthy a then a else b)"

definition nullish :: "json option \<Rightarrow> json option \<Rightarrow> json option" where
  "nullish a b = (case a of None \<Rightarrow> b | Some JNull \<Rightarrow> b | Some v \<Rightarrow> Some v)"

text \<open>
  The values \<^verbatim>\<open>for (const d of x)\<close> runs through: the elements of an array,
  the characters of a string; any other value is not iterable.
\<close>

definition iterate :: "json option \<Rightarrow> error + json list" where
  "iterate x =
     (case x of
        Some (JArr xs) \<Rightarrow> Inr xs
      | Some (JStr s) \<Rightarrow> Inr (map (\<lambda>c. JStr [c]) s)
      | _ \<Rightarrow> Inl TypeError)"

subsection \<open>Addition\<close>

text \<open>
  \<^verbatim>\<open>a + b\<close> gives a number, or a string as soon as one of the two
  operands is a string, an array or an object. \<^verbatim>\<open>String(v)\<close> of a JSON
  value: an array is its elements joined by commas, with \<^verbatim>\<open>null\<close> elements
  written as the empty string, and an object is \<^verbatim>\<open>[object Object]\<close>.
\<close>

datatype jsval = Num int | Str string

fun join_comma :: "string list \<Rightarrow> string" where
  "join_comma [] = []"
| "join_comma [s] = s"
| "join_comma (s # t # ts) = s @ '','' @ join_comma (t # ts)"

fun js_to_string :: "json \<Rightarrow> string" where
  "js_to_string JNull = ''null''"
| "js_to_string (JBool b) = (if b then ''true'' else ''false'')"
| "js_to_string (JNum n) = show_int n"
| "js_to_string (JStr s) = s"
| "js_to_string (JArr xs) =
     join_comma (map (\<lambda>x. if x = JNull then [] else js_to_string x) xs)"
| "js_to_string (JObj kvs) = ''[object Object]''"

text \<open>\<^verbatim>\<open>x || n\<close> for a number \<open>n\<close>.\<close>

definition or_default :: "json option \<Rightarrow> int \<Rightarrow> json" where
  "or_default x n = (case x of None \<Rightarrow> JNum n | Some v \<Rightarrow> if truthy x then v else JNum n)"

text \<open>\<^verbatim>\<open>a + v\<close> for \<open>a\<close> a number or a string and \<open>v\<close> a JSON value.\<close>

fun js_add :: "jsval \<Rightarrow> json \<Rightarrow> jsval" where
  "js_add (Num a) JNull = Num a"
| "js_add (Num a) (JBool b) = Num (a + (if b then 1 else 0))"
| "js_add (Num a) (JNum n) = Num (a + n)"
| "js_add (Num a) v = Str (show_int a @ js_to_string v)"
| "js_add (Str s) v = Str (s @ js_to_string v)"

subsection \<open>The adapters\<close>

text \<open>
  The rows the adapters push hold whatever the upstream JSON holds; a counter
  that the pushed object does not have is \<open>None\<close>.
\<close>

type_synonym raw_row = "(json, json option) stat"

text \<open>Lines 96 to 102: the row of one daily entry, if it has a date.\<close>

definition item_row :: "json \<Rightarrow> error + raw_row option" where
  "item_row d =
     (case d of
        JNull \<Rightarrow> Inl TypeError
      | _ \<Rightarrow>
          (case js_or (get d ''date'') (js_or (get d ''day'') (get d ''dt'')) of
             None \<Rightarrow> Inr None
           | Some dt \<Rightarrow>
               if \<not> truthy (Some dt) then Inr None
               else Inr (Some
                 \<lparr>date = dt,
                  views = nullish (get d ''views'')
                            (nullish (get d ''uniqViews'')
                               (nullish (get d ''totalViews'') (Some (JNum 0)))),
                  clicks = Some JNull,
                  contacts = nullish (get d ''contacts'')
                               (nullish (get d ''uniqContacts'')
                                  (nullish (get d ''totalContacts'') (Some (JNum 0)))),
                  calls = Some (JNum 0),
                  sales = Some (JNum 0)\<rparr>)))"

text \<open>A loop that pushes the row of every entry and stops at the first exception.\<close>

fun push_rows :: "(json \<Rightarrow> error + raw_row option) \<Rightarrow> json list \<Rightarrow> error + raw_row list" where
  "push_rows f [] = Inr []"
| "push_rows f (d # ds) =
     (case f d of
        Inl e \<Rightarrow> Inl e
      | Inr r \<Rightarrow>
          (case push_rows f ds of
             Inl e \<Rightarrow> Inl e
           | Inr rs \<Rightarrow> Inr (case r of None \<Rightarrow> rs | Some x \<Rightarrow> x # rs)))"

text \<open>Line 94: \<^verbatim>\<open>b?.stats || b?.dates || b?.statistics || []\<close>.\<close>

definition date_series :: "json \<Rightarrow> json option" where
  "date_series b =
     js_or (opt_get b ''stats'')
       (js_or (opt_get b ''dates'') (js_or (opt_get b ''statistics'') (Some (JArr []))))"

fun buckets_loop :: "json list \<Rightarrow> error + raw_row list" where
  "buckets_loop [] = Inr []"
| "buckets_loop (b # bs) =
     (case iterate (date_series b) of
        Inl e \<Rightarrow> Inl e
      | Inr ds \<Rightarrow>
          (case push_rows item_row ds of
             Inl e \<Rightarrow> Inl e
           | Inr rs \<Rightarrow>
               (case buckets_loop bs of Inl e \<Rightarrow> Inl e | Inr rs' \<Rightarrow> Inr (rs @ rs'))))"

text \<open>Lines 90 and 91: \<^verbatim>\<open>if (Array.isArray(raw?.k)) buckets.push(...raw.k)\<close>.\<close>

definition array_under :: "json \<Rightarrow> string \<Rightarrow> json list" where
  "array_under raw k = (case opt_get raw k of Some (JArr xs) \<Rightarrow> xs | _ \<Rightarrow> [])"

definition adaptItemsStats :: "json \<Rightarrow> error + raw_row list" where
  "adaptItemsStats raw = buckets_loop (array_under raw ''result'' @ array_under raw ''data'')"

definition call_row :: "json \<Rightarrow> error + raw_row option" where
  "call_row it =
     (case it of
        JNull \<Rightarrow> Inl TypeError
      | _ \<Rightarrow>
          (case js_or (get it ''date'') (js_or (get it ''day'') (get it ''dt'')) of
             None \<Rightarrow> Inr None
           | Some dt \<Rightarrow>
               if \<not> truthy (Some dt) then Inr None
               else Inr (Some
                 \<lparr>date = dt, views = None, clicks = None, contacts = None,
                  calls = nullish (get it ''calls'')
                            (nullish (get it ''success_calls'')
                               (nullish (get it ''total'') (Some (JNum 0)))),
                  sales = None\<rparr>)))"

definition adaptCallsStats :: "json \<Rightarrow> error + raw_row list" where
  "adaptCallsStats raw =
     (case iterate (js_or (opt_get raw ''result'') (js_or (opt_get raw ''data'') (Some (JArr [])))) of
        Inl e \<Rightarrow> Inl e
      | Inr items \<Rightarrow> push_rows call_row items)"

text \<open>
  The ordered fallback as the specification words it: the first value that is
  defined (present and not \<^verbatim>\<open>null\<close>) wins, and the default is 0.
\<close>

fun first_defined :: "json option list \<Rightarrow> json" where
  "first_defined [] = JNum 0"
| "first_defined (None # vs) = first_defined vs"
| "first_defined (Some JNull # vs) = first_defined vs"
| "first_defined (Some v # vs) = v"


subsection \<open>\<^verbatim>\<open>groupByPeriod\<close> on rows with arbitrary counters\<close>

text \<open>
  The rows the adapters push can hold any JSON value as a counter and as a
  date, and \<^verbatim>\<open>groupByPeriod\<close> adds whatever it finds: a counter of a
  bucket is then a number or a string. This is the same function on those
  rows; on rows whose counters are numbers or missing it is the aggregator
  above (lemma \<open>groupByPeriod_js_canonical\<close> below).
\<close>

type_synonym js_bucket = "(string, jsval) stat"

definition bucket_key_js :: "string \<Rightarrow> raw_row \<Rightarrow> error + string" where
  "bucket_key_js period r = period_key period (js_to_string (date r) @ ''T00:00:00Z'')"

definition new_bucket_js :: "string \<Rightarrow> js_bucket" where
  "new_bucket_js key =
     \<lparr>date = key, views = Num 0, clicks = Num 0, contacts = Num 0, calls = Num 0, sales = Num 0\<rparr>"

definition absorb_js :: "js_bucket \<Rightarrow> raw_row \<Rightarrow> js_bucket" where
  "absorb_js acc r =
     acc\<lparr>views := js_add (views acc) (or_default (views r) 0),
         clicks := js_add (clicks acc) (or_default (clicks r) 0),
         contacts := js_add (contacts acc) (or_default (contacts r) 0),
         calls := js_add (calls acc) (or_default (calls r) 0),
         sales := js_add (sales acc) (or_default (sales r) 0)\<rparr>"

fun group_loop_js :: "string \<Rightarrow> (string \<times> js_bucket) list \<Rightarrow> raw_row list
                      \<Rightarrow> error + (string \<times> js_bucket) list" where
  "group_loop_js period m [] = Inr m"
| "group_loop_js period m (r # rs) =
     (case bucket_key_js period r of
        Inl e \<Rightarrow> Inl e
      | Inr key \<Rightarrow>
          (let m1 = (if map_of m key = None then AList.update key (new_bucket_js key) m else m)
           in case map_of m1 key of
                None \<Rightarrow> Inl TypeError
              | Some acc \<Rightarrow> group_loop_js period (AList.update key (absorb_js acc r) m1) rs))"

definition groupByPeriod_js :: "raw_row list \<Rightarrow> string \<Rightarrow> error + js_bucket list" where
  "groupByPeriod_js rows period =
     (case group_loop_js period [] rows of
        Inl e \<Rightarrow> Inl e
      | Inr m \<Rightarrow> Inr (sort_key date (map snd m)))"

subsection \<open>Upstream calls\<close>

text \<open>
  What \<^verbatim>\<open>await fetch(...)\<close> gives: the promise is rejected (a network
  failure), or it resolves to a response with its \<^verbatim>\<open>ok\<close> flag, its status,
  its body as text, and the value \<^verbatim>\<open>r.json()\<close> resolves to (\<open>None\<close> when the
  body is not JSON and \<^verbatim>\<open>r.json()\<close> is rejected).
\<close>

record response =
  ok :: bool
  status :: nat
  body_text :: string
  body_json :: "json option"

datatype fetch_result = Rejected | Resolved response

subsection \<open>\<^verbatim>\<open>getAccessToken\<close>\<close>

text \<open>
  The two module variables, and a counter of the token exchanges performed
  (the calls of \<^verbatim>\<open>fetch\<close> at line 27), which the program does not have and
  which only records whether a call went to the network. \<^verbatim>\<open>tokenExp\<close> is
  a number, or a string once an exchange has answered with an
  \<^verbatim>\<open>expires_in\<close> that is a string, an array or an object (line 43).
\<close>

record token_cache =
  accessToken :: "json option"
  tokenExp :: jsval
  exchanges :: nat

definition initial_cache :: token_cache where
  "initial_cache = \<lparr>accessToken = Some JNull, tokenExp = Num 0, exchanges = 0\<rparr>"

text \<open>
  Line 25: \<^verbatim>\<open>accessToken && now < tokenExp - 60\<close>. When \<^verbatim>\<open>tokenExp\<close> is
  a string \<open>s\<close>, the engine converts it to a number first; that conversion is
  the engine's and is not modelled: \<open>lt now s\<close> stands for the value of
  \<^verbatim>\<open>now < s - 60\<close>, and every result holds for every \<open>lt\<close>.
\<close>

definition cache_fresh :: "(int \<Rightarrow> string \<Rightarrow> bool) \<Rightarrow> token_cache \<Rightarrow> int \<Rightarrow> bool" where
  "cache_fresh lt c now =
     (truthy (accessToken c)
      \<and> (case tokenExp c of Num e \<Rightarrow> now < e - 60 | Str s \<Rightarrow> lt now s))"

text \<open>
  \<open>getAccessToken lt c now f now'\<close>: the cache before the call, the clock read
  at line 24, the outcome of the exchange if one is made, and the clock read at
  line 43. The result is the value returned or the error thrown, and the cache
  after the call.
\<close>

definition getAccessToken ::
  "(int \<Rightarrow> string \<Rightarrow> bool) \<Rightarrow> token_cache \<Rightarrow> int \<Rightarrow> fetch_result \<Rightarrow> int
   \<Rightarrow> (error + json option) \<times> token_cache" where
  "getAccessToken lt c now f now' =
     (if cache_fresh lt c now then (Inr (accessToken c), c)
      else
        (let c1 = c\<lparr>exchanges := exchanges c + 1\<rparr>
         in case f of
              Rejected \<Rightarrow> (Inl FetchError, c1)
            | Resolved r \<Rightarrow>
                if \<not> ok r then (Inl (OAuthError (status r) (body_text r)), c1)
                else
                  (case body_json r of
                     None \<Rightarrow> (Inl SyntaxError, c1)
                   | Some j \<Rightarrow>
                       (case strict_get j ''access_token'' of
                          Inl e \<Rightarrow> (Inl e, c1)
                        | Inr tok \<Rightarrow>
                            (Inr tok,
                             c1\<lparr>accessToken := tok,
                                tokenExp :=
                                  js_add (Num now') (or_default (get j ''expires_in'') 3600)\<rparr>)))))"

subsection \<open>The \<^verbatim>\<open>/stats\<close> handler\<close>

text \<open>
  The aggregator adds the counters of the rows and compares their dates. The
  handler is modelled for payloads whose dates are strings and whose counters
  are numbers, \<^verbatim>\<open>null\<close> or missing; for any other payload the model has
  no result (\<open>None\<close>).
\<close>

definition counter :: "json option \<Rightarrow> int option option" where
  "counter v =
     (case v of
        None \<Rightarrow> Some None
      | Some JNull \<Rightarrow> Some None
      | Some (JNum n) \<Rightarrow> Some (Some n)
      | _ \<Rightarrow> None)"

definition canonical :: "raw_row \<Rightarrow> row option" where
  "canonical r =
     (case (date r, counter (views r), counter (clicks r), counter (contacts r),
            counter (calls r), counter (sales r)) of
        (JStr d, Some v, Some c, Some t, Some l, Some s) \<Rightarrow>
          Some \<lparr>date = d, views = v, clicks = c, contacts = t, calls = l, sales = s\<rparr>
      | _ \<Rightarrow> None)"

fun canonical_rows :: "raw_row list \<Rightarrow> row list option" where
  "canonical_rows [] = Some []"
| "canonical_rows (r # rs) =
     (case canonical r of
        None \<Rightarrow> None
      | Some x \<Rightarrow> (case canonical_rows rs of None \<Rightarrow> None | Some xs \<Rightarrow> Some (x # xs)))"

text \<open>
  Lines 172 to 190: the \<^verbatim>\<open>try\<close> block of the call statistics. Whatever is
  thrown inside is caught by \<^verbatim>\<open>catch {}\<close> and leaves \<^verbatim>\<open>rows\<close> as it was.
\<close>

definition with_calls :: "row list \<Rightarrow> fetch_result \<Rightarrow> row list option" where
  "with_calls rows f2 =
     (case f2 of
        Rejected \<Rightarrow> Some rows
      | Resolved r2 \<Rightarrow>
          if ok r2 then
            (case body_json r2 of
               None \<Rightarrow> Some rows
             | Some j2 \<Rightarrow>
                 (case adaptCallsStats j2 of
                    Inl e \<Rightarrow> Some rows
                  | Inr cs \<Rightarrow>
                      (case canonical_rows cs of
                         None \<Rightarrow> None
                       | Some cs' \<Rightarrow> Some (merge rows cs'))))
          else Some rows)"

text \<open>
  The response: \<^verbatim>\<open>res.json({ itemId, series })\<close>, where only the series is
  kept, or \<^verbatim>\<open>res.status(500).json({ error })\<close>.
\<close>

datatype http_response = Ok200 "bucket list" | Err500 error

text \<open>
  \<open>stats tok f1 f2 grouping\<close>: the outcome of \<^verbatim>\<open>getAccessToken()\<close>, of the
  two upstream calls, and the \<^verbatim>\<open>grouping\<close> of the query (\<^verbatim>\<open>"day"\<close> when
  the query has none).
\<close>

definition stats ::
  "error + json option \<Rightarrow> fetch_result \<Rightarrow> fetch_result \<Rightarrow> string option \<Rightarrow> http_response option" where
  "stats tok f1 f2 grouping =
     (case tok of
        Inl e \<Rightarrow> Some (Err500 e)
      | Inr _ \<Rightarrow>
          (case f1 of
             Rejected \<Rightarrow> Some (Err500 FetchError)
           | Resolved r1 \<Rightarrow>
               (case body_json r1 of
                  None \<Rightarrow> Some (Err500 SyntaxError)
                | Some j1 \<Rightarrow>
                    (case adaptItemsStats j1 of
                       Inl e \<Rightarrow> Some (Err500 e)
                     | Inr raw_rows \<Rightarrow>
                         (case canonical_rows raw_rows of
                            None \<Rightarrow> None
                          | Some rows \<Rightarrow>
                              (case with_calls rows f2 of
                                 None \<Rightarrow> None
                               | Some rows' \<Rightarrow>
                                   (case groupByPeriod rows'
                                           (case grouping of None \<Rightarrow> ''day'' | Some g \<Rightarrow> g) of
                                      Inl e \<Rightarrow> Some (Err500 e)
                                    | Inr series \<Rightarrow> Some (Ok200 series))))))))"


subsection \<open>Notions used in the statements\<close>

text \<open>A row after the call pairs \<open>cs\<close> of its date have been added to its calls.\<close>

definition with_calls_added :: "row \<Rightarrow> row list \<Rightarrow> row" where
  "with_calls_added t cs = t\<lparr>calls := Some (or0 (calls t) + sum_list (map (\<lambda>c. or0 (calls c)) cs))\<rparr>"

text \<open>
  The call-stats fetch fails: the request is rejected, the status is not a
  success, or the body is not JSON.
\<close>

definition call_stats_failed :: "fetch_result \<Rightarrow> bool" where
  "call_stats_failed f2 =
     (case f2 of Rejected \<Rightarrow> True | Resolved r \<Rightarrow> \<not> ok r \<or> body_json r = None)"

text \<open>The response built from the item rows alone, with no merge.\<close>

definition items_only :: "json \<Rightarrow> string option \<Rightarrow> http_response option" where
  "items_only j1 grouping =
     (case adaptItemsStats j1 of
        Inl e \<Rightarrow> Some (Err500 e)
      | Inr raw_rows \<Rightarrow>
          (case canonical_rows raw_rows of
             None \<Rightarrow> None
           | Some rows \<Rightarrow>
               (case groupByPeriod rows (case grouping of None \<Rightarrow> ''day'' | Some g \<Rightarrow> g) of
                  Inl e \<Rightarrow> Some (Err500 e)
                | Inr series \<Rightarrow> Some (Ok200 series))))"

text \<open>The calendar date \<^verbatim>\<open>YYYY-MM-DD\<close> of a year, a month and a day.\<close>

definition iso_string :: "nat \<Rightarrow> nat \<Rightarrow> nat \<Rightarrow> string" where
  "iso_string y m d =
     padStart 4 (show_nat y) @ ''-'' @ padStart 2 (show_nat m) @ ''-'' @ padStart 2 (show_nat d)"

text \<open>
  The date series of a record as the amended claim words it: the first truthy
  value among \<^verbatim>\<open>stats\<close>, \<^verbatim>\<open>dates\<close> and \<^verbatim>\<open>statistics\<close>, and the
  empty list when none is truthy.
\<close>

fun first_truthy :: "json option list \<Rightarrow> json option" where
  "first_truthy [] = None"
| "first_truthy (v # vs) = (if truthy v then v else first_truthy vs)"

definition chosen_series :: "json \<Rightarrow> json option" where
  "chosen_series b =
     (case first_truthy [opt_get b ''stats'', opt_get b ''dates'', opt_get b ''statistics''] of
        None \<Rightarrow> Some (JArr [])
      | Some v \<Rightarrow> Some v)"

text \<open>The rows one record contributes, or the exception it raises.\<close>

definition record_rows :: "json \<Rightarrow> error + raw_row list" where
  "record_rows b =
     (case iterate (chosen_series b) of Inl e \<Rightarrow> Inl e | Inr ds \<Rightarrow> push_rows item_row ds)"

text \<open>The rows of all records in order, or the first exception.\<close>

fun collect :: "(error + 'a list) list \<Rightarrow> error + 'a list" where
  "collect [] = Inr []"
| "collect (Inl e # xs) = Inl e"
| "collect (Inr rs # xs) = (case collect xs of Inl e \<Rightarrow> Inl e | Inr rs' \<Rightarrow> Inr (rs @ rs'))"

text \<open>A canonical row as a row of JSON values, and a bucket of numbers as a bucket of values.\<close>

definition raw_of :: "row \<Rightarrow> raw_row" where
  "raw_of r =
     \<lparr>date = JStr (date r), views = map_option JNum (views r),
      clicks = map_option JNum (clicks r), contacts = map_option JNum (contacts r),
      calls = map_option JNum (calls r), sales = map_option JNum (sales r)\<rparr>"

definition js_bucket_of :: "bucket \<Rightarrow> js_bucket" where
  "js_bucket_of b =
     \<lparr>date = date b, views = Num (views b), clicks = Num (clicks b),
      contacts = Num (contacts b), calls = Num (calls b), sales = Num (sales b)\<rparr>"



section \<open>Properties\<close>

subsection \<open>The loop of the aggregator\<close>

lemma group_loop_step:
  assumes "bucket_key period r = Inr key"
  shows "group_loop period m (r # rs) =
         group_loop period
           (AList.update key
              (absorb (case map_of m key of None \<Rightarrow> new_bucket key | Some a \<Rightarrow> a) r) m) rs"
  using assms by (cases "map_of m key") (simp_all add: AList.update_conv')

lemma group_loop_total:
  assumes "\<forall>r\<in>set rows. \<exists>k. bucket_key period r = Inr k"
  shows "\<exists>m'. group_loop period m rows = Inr m'"
  using assms
proof (induction rows arbitrary: m)
  case Nil
  show ?case by simp
next
  case (Cons r rs)
  then obtain k where k: "bucket_key period r = Inr k" by auto
  show ?case unfolding group_loop_step[OF k] using Cons by simp
qed

lemma group_loop_Inr_keys:
  assumes "group_loop period m rows = Inr m'"
  shows "\<forall>r\<in>set rows. \<exists>k. bucket_key period r = Inr k"
  using assms
proof (induction rows arbitrary: m)
  case Nil
  show ?case by simp
next
  case (Cons r rs)
  then obtain k where k: "bucket_key period r = Inr k"
    by (cases "bucket_key period r") auto
  from Cons.prems have "group_loop period
           (AList.update k (absorb (case map_of m k of None \<Rightarrow> new_bucket k | Some a \<Rightarrow> a) r) m) rs = Inr m'"
    unfolding group_loop_step[OF k] .
  from Cons.IH[OF this] k show ?case by auto
qed

lemma group_loop_distinct:
  assumes "group_loop period m rows = Inr m'" and "distinct (map fst m)"
  shows "distinct (map fst m')"
  using assms
proof (induction rows arbitrary: m)
  case Nil
  then show ?case by simp
next
  case (Cons r rs)
  then obtain k where k: "bucket_key period r = Inr k"
    by (cases "bucket_key period r") auto
  show ?case
    using Cons.prems Cons.IH unfolding group_loop_step[OF k]
    by (blast intro: AList.distinct_update)
qed

lemma group_loop_keys:
  assumes "group_loop period m rows = Inr m'"
  shows "fst ` set m' = fst ` set m \<union> {k. \<exists>r\<in>set rows. bucket_key period r = Inr k}"
  using assms
proof (induction rows arbitrary: m)
  case Nil
  then show ?case by simp
next
  case (Cons r rs)
  then obtain k where k: "bucket_key period r = Inr k"
    by (cases "bucket_key period r") auto
  let ?m1 = "AList.update k (absorb (case map_of m k of None \<Rightarrow> new_bucket k | Some a \<Rightarrow> a) r) m"
  have "group_loop period ?m1 rs = Inr m'"
    using Cons.prems unfolding group_loop_step[OF k] .
  from Cons.IH[OF this] show ?case
    using k by (auto simp: AList.dom_update)
qed

lemma date_absorb: "date (absorb acc r) = date acc"
  by (simp add: absorb_def)

lemma group_loop_date:
  assumes "group_loop period m rows = Inr m'"
    and "\<forall>k b. map_of m k = Some b \<longrightarrow> date b = k"
  shows "\<forall>k b. map_of m' k = Some b \<longrightarrow> date b = k"
  using assms
proof (induction rows arbitrary: m)
  case Nil
  then show ?case by simp
next
  case (Cons r rs)
  then obtain k where k: "bucket_key period r = Inr k"
    by (cases "bucket_key period r") auto
  let ?m1 = "AList.update k (absorb (case map_of m k of None \<Rightarrow> new_bucket k | Some a \<Rightarrow> a) r) m"
  have run: "group_loop period ?m1 rs = Inr m'"
    using Cons.prems(1) unfolding group_loop_step[OF k] .
  have "\<forall>k' b. map_of ?m1 k' = Some b \<longrightarrow> date b = k'"
    using Cons.prems(2)
    by (auto simp: AList.update_conv' date_absorb new_bucket_def split: option.splits if_splits)
  from Cons.IH[OF run this] show ?case .
qed

text \<open>A counter of the bucket together with the counter of the row it absorbs.\<close>

lemma group_loop_counter:
  fixes g :: "bucket \<Rightarrow> int" and f :: "row \<Rightarrow> int option"
  assumes gf: "\<And>acc r. g (absorb acc r) = g acc + or0 (f r)" and g0: "\<And>k. g (new_bucket k) = 0"
    and "group_loop period m rows = Inr m'" and "map_of m' k = Some b"
  shows "g b = (case map_of m k of None \<Rightarrow> 0 | Some b0 \<Rightarrow> g b0)
               + sum_list (map (\<lambda>r. or0 (f r)) (filter (\<lambda>r. bucket_key period r = Inr k) rows))"
  using assms(3,4)
proof (induction rows arbitrary: m)
  case Nil
  then show ?case by simp
next
  case (Cons r rs)
  then obtain kr where kr: "bucket_key period r = Inr kr"
    by (cases "bucket_key period r") auto
  let ?acc = "case map_of m kr of None \<Rightarrow> new_bucket kr | Some a \<Rightarrow> a"
  let ?m1 = "AList.update kr (absorb ?acc r) m"
  have run: "group_loop period ?m1 rs = Inr m'"
    using Cons.prems(1) unfolding group_loop_step[OF kr] .
  note IH = Cons.IH[OF run Cons.prems(2)]
  show ?case
  proof (cases "kr = k")
    case True
    have "g (absorb ?acc r) = (case map_of m k of None \<Rightarrow> 0 | Some b0 \<Rightarrow> g b0) + or0 (f r)"
      using True by (simp add: gf g0 split: option.splits)
    then show ?thesis using IH True kr by (simp add: AList.update_conv')
  next
    case False
    then show ?thesis using IH kr by (simp add: AList.update_conv')
  qed
qed

lemma sum_update:
  fixes g :: "'b \<Rightarrow> int"
  shows "sum_list (map (\<lambda>p. g (snd p)) (AList.update k v m))
         = sum_list (map (\<lambda>p. g (snd p)) m) + g v
           - (case map_of m k of None \<Rightarrow> 0 | Some b \<Rightarrow> g b)"
  by (induction m) auto

lemma group_loop_total_sum:
  fixes g :: "bucket \<Rightarrow> int" and f :: "row \<Rightarrow> int option"
  assumes gf: "\<And>acc r. g (absorb acc r) = g acc + or0 (f r)" and g0: "\<And>k. g (new_bucket k) = 0"
    and "group_loop period m rows = Inr m'"
  shows "sum_list (map (\<lambda>p. g (snd p)) m')
         = sum_list (map (\<lambda>p. g (snd p)) m) + sum_list (map (\<lambda>r. or0 (f r)) rows)"
  using assms(3)
proof (induction rows arbitrary: m)
  case Nil
  then show ?case by simp
next
  case (Cons r rs)
  then obtain kr where kr: "bucket_key period r = Inr kr"
    by (cases "bucket_key period r") auto
  let ?acc = "case map_of m kr of None \<Rightarrow> new_bucket kr | Some a \<Rightarrow> a"
  let ?m1 = "AList.update kr (absorb ?acc r) m"
  have run: "group_loop period ?m1 rs = Inr m'"
    using Cons.prems(1) unfolding group_loop_step[OF kr] .
  have "sum_list (map (\<lambda>p. g (snd p)) ?m1) = sum_list (map (\<lambda>p. g (snd p)) m) + or0 (f r)"
    unfolding sum_update by (simp add: gf g0 split: option.splits)
  then show ?case using Cons.IH[OF run] by simp
qed

lemma sum_list_insort_key:
  fixes g :: "'a \<Rightarrow> int"
  shows "sum_list (map g (insort_key k x xs)) = g x + sum_list (map g xs)"
  by (induction xs) auto

lemma sum_list_sort_key:
  fixes g :: "'a \<Rightarrow> int"
  shows "sum_list (map g (sort_key k xs)) = sum_list (map g xs)"
  by (induction xs) (auto simp: sum_list_insort_key)

lemma absorb_counters:
  "views (absorb acc r) = views acc + or0 (views r)"
  "clicks (absorb acc r) = clicks acc + or0 (clicks r)"
  "contacts (absorb acc r) = contacts acc + or0 (contacts r)"
  "calls (absorb acc r) = calls acc + or0 (calls r)"
  "sales (absorb acc r) = sales acc + or0 (sales r)"
  by (simp_all add: absorb_def)

lemma new_bucket_counters:
  "views (new_bucket k) = 0" "clicks (new_bucket k) = 0" "contacts (new_bucket k) = 0"
  "calls (new_bucket k) = 0" "sales (new_bucket k) = 0" "date (new_bucket k) = k"
  by (simp_all add: new_bucket_def)

lemma bucket_key_valid:
  assumes "valid_date (date r)"
  shows "\<exists>k. bucket_key period r = Inr k"
proof -
  from assms obtain n where n: "new_Date (date r @ ''T00:00:00Z'') = Some n"
    by (auto simp: valid_date_def)
  show ?thesis
    by (simp add: bucket_key_def period_key_def n toISOString_def to_monday_def Let_def)
qed

lemma groupByPeriod_Inr:
  "groupByPeriod rows period = Inr out \<longleftrightarrow>
   (\<exists>m. group_loop period [] rows = Inr m \<and> out = sort_key date (map snd m))"
  by (auto simp: groupByPeriod_def split: sum.splits)

lemma map_of_dates:
  assumes "\<forall>k b. map_of m k = Some b \<longrightarrow> date b = k" and "distinct (map fst m)"
  shows "map date (map snd m) = map fst m"
proof -
  have "date (snd p) = fst p" if "p \<in> set m" for p
  proof -
    from that have "(fst p, snd p) \<in> set m" by simp
    with assms(2) have "map_of m (fst p) = Some (snd p)" by (rule map_of_is_SomeI)
    with assms(1) show ?thesis by blast
  qed
  then have "map (\<lambda>p. date (snd p)) m = map fst m" by (intro map_cong refl)
  then show ?thesis by (simp add: comp_def)
qed

lemma distinct_map_insort_key:
  "distinct (map f (insort_key k x xs)) = (f x \<notin> f ` set xs \<and> distinct (map f xs))"
  by (induction xs) (auto simp: set_insort_key)

lemma distinct_map_sort_key: "distinct (map f (sort_key k xs)) = distinct (map f xs)"
  by (induction xs) (simp_all add: distinct_map_insort_key)

lemma groupByPeriod_facts:
  assumes "groupByPeriod rows period = Inr out"
  shows "sorted (map date out)"
    and "distinct (map date out)"
    and "set (map date out) = {k. \<exists>r\<in>set rows. bucket_key period r = Inr k}"
proof -
  from assms obtain m where m: "group_loop period [] rows = Inr m"
    and out: "out = sort_key date (map snd m)"
    by (auto simp: groupByPeriod_Inr)
  have d: "distinct (map fst m)" using group_loop_distinct[OF m] by simp
  have dt: "\<forall>k b. map_of m k = Some b \<longrightarrow> date b = k" using group_loop_date[OF m] by simp
  have md: "map date (map snd m) = map fst m" by (rule map_of_dates[OF dt d])
  show "sorted (map date out)" unfolding out by (rule sorted_sort_key)
  have "distinct (map date (map snd m))" unfolding md by (rule d)
  then show "distinct (map date out)" unfolding out by (simp only: distinct_map_sort_key)
  have "set (map date out) = set (map date (map snd m))"
    unfolding out by (simp only: set_map set_sort)
  then have "set (map date out) = set (map fst m)" unfolding md .
  then show "set (map date out) = {k. \<exists>r\<in>set rows. bucket_key period r = Inr k}"
    using group_loop_keys[OF m] by simp
qed

lemma groupByPeriod_bucket:
  fixes g :: "bucket \<Rightarrow> int" and f :: "row \<Rightarrow> int option"
  assumes gf: "\<And>acc r. g (absorb acc r) = g acc + or0 (f r)" and g0: "\<And>k. g (new_bucket k) = 0"
    and "groupByPeriod rows period = Inr out" and "b \<in> set out"
  shows "g b = sum_list (map (\<lambda>r. or0 (f r))
                 (filter (\<lambda>r. bucket_key period r = Inr (date b)) rows))"
proof -
  from assms(3) obtain m where m: "group_loop period [] rows = Inr m"
    and out: "out = sort_key date (map snd m)"
    by (auto simp: groupByPeriod_Inr)
  have d: "distinct (map fst m)" using group_loop_distinct[OF m] by simp
  have dt: "\<forall>k b. map_of m k = Some b \<longrightarrow> date b = k" using group_loop_date[OF m] by simp
  from assms(4) have "b \<in> snd ` set m" unfolding out by simp
  then obtain k where "(k, b) \<in> set m" by auto
  then have mo: "map_of m k = Some b" using d by simp
  then have "date b = k" using dt by simp
  then show ?thesis using group_loop_counter[OF gf g0 m mo] by simp
qed

lemma groupByPeriod_sum:
  fixes g :: "bucket \<Rightarrow> int" and f :: "row \<Rightarrow> int option"
  assumes gf: "\<And>acc r. g (absorb acc r) = g acc + or0 (f r)" and g0: "\<And>k. g (new_bucket k) = 0"
    and "groupByPeriod rows period = Inr out"
  shows "sum_list (map g out) = sum_list (map (\<lambda>r. or0 (f r)) rows)"
proof -
  from assms(3) obtain m where m: "group_loop period [] rows = Inr m"
    and out: "out = sort_key date (map snd m)"
    by (auto simp: groupByPeriod_Inr)
  have "sum_list (map g out) = sum_list (map (\<lambda>p. g (snd p)) m)"
    unfolding out sum_list_sort_key by (simp add: comp_def)
  then show ?thesis using group_loop_total_sum[OF gf g0 m] by simp
qed

subsection \<open>Sorted output and partition of the input\<close>

text \<open>
  C1. For rows whose dates are calendar dates, and for every period, the
  aggregator returns a list of buckets that is sorted ascending by bucket key
  (in the lexicographic order of strings) and has no key twice; every row has
  exactly one bucket with its key; every counter of a bucket is the sum of
  that counter over exactly the rows with the key of the bucket, a missing or
  \<^verbatim>\<open>null\<close> counter counting as 0; and so for each counter the sum over the
  buckets equals the sum over the rows.
\<close>

theorem groupByPeriod_sorted_partition:
  assumes "\<forall>r\<in>set rows. valid_date (date r)"
  shows "\<exists>out. groupByPeriod rows period = Inr out
           \<and> sorted (map date out)
           \<and> distinct (map date out)
           \<and> (\<forall>r\<in>set rows. \<exists>!b. b \<in> set out \<and> bucket_key period r = Inr (date b))
           \<and> (\<forall>b\<in>set out.
                 views b = sum_list (map (\<lambda>r. or0 (views r))
                             (filter (\<lambda>r. bucket_key period r = Inr (date b)) rows))
               \<and> clicks b = sum_list (map (\<lambda>r. or0 (clicks r))
                             (filter (\<lambda>r. bucket_key period r = Inr (date b)) rows))
               \<and> contacts b = sum_list (map (\<lambda>r. or0 (contacts r))
                             (filter (\<lambda>r. bucket_key period r = Inr (date b)) rows))
               \<and> calls b = sum_list (map (\<lambda>r. or0 (calls r))
                             (filter (\<lambda>r. bucket_key period r = Inr (date b)) rows))
               \<and> sales b = sum_list (map (\<lambda>r. or0 (sales r))
                             (filter (\<lambda>r. bucket_key period r = Inr (date b)) rows)))
           \<and> sum_list (map views out) = sum_list (map (\<lambda>r. or0 (views r)) rows)
           \<and> sum_list (map clicks out) = sum_list (map (\<lambda>r. or0 (clicks r)) rows)
           \<and> sum_list (map contacts out) = sum_list (map (\<lambda>r. or0 (contacts r)) rows)
           \<and> sum_list (map calls out) = sum_list (map (\<lambda>r. or0 (calls r)) rows)
           \<and> sum_list (map sales out) = sum_list (map (\<lambda>r. or0 (sales r)) rows)"
proof -
  have "\<forall>r\<in>set rows. \<exists>k. bucket_key period r = Inr k"
    using assms bucket_key_valid by blast
  from group_loop_total[OF this] obtain m where "group_loop period [] rows = Inr m" by blast
  then obtain out where out: "groupByPeriod rows period = Inr out"
    by (simp add: groupByPeriod_def)
  note f = groupByPeriod_facts[OF out]
  have one: "\<forall>r\<in>set rows. \<exists>!b. b \<in> set out \<and> bucket_key period r = Inr (date b)"
  proof
    fix r assume r: "r \<in> set rows"
    then obtain k where k: "bucket_key period r = Inr k"
      using assms bucket_key_valid by blast
    then have "k \<in> set (map date out)" using f(3) r by blast
    then obtain b where b: "b \<in> set out" "date b = k" by auto
    show "\<exists>!b. b \<in> set out \<and> bucket_key period r = Inr (date b)"
    proof (rule ex1I[of _ b])
      show "b \<in> set out \<and> bucket_key period r = Inr (date b)" using b k by simp
    next
      fix b' assume "b' \<in> set out \<and> bucket_key period r = Inr (date b')"
      then have b': "b' \<in> set out" and e: "date b' = date b" using k b by simp_all
      have "inj_on date (set out)" using f(2) by (simp add: distinct_map)
      then show "b' = b" using e b' b(1) by (rule inj_onD)
    qed
  qed
  show ?thesis
  proof (intro exI[of _ out] conjI)
    show "groupByPeriod rows period = Inr out" by (rule out)
    show "sorted (map date out)" by (rule f(1))
    show "distinct (map date out)" by (rule f(2))
    show "\<forall>r\<in>set rows. \<exists>!b. b \<in> set out \<and> bucket_key period r = Inr (date b)" by (rule one)
    show "\<forall>b\<in>set out.
            views b = sum_list (map (\<lambda>r. or0 (views r))
                        (filter (\<lambda>r. bucket_key period r = Inr (date b)) rows))
          \<and> clicks b = sum_list (map (\<lambda>r. or0 (clicks r))
                        (filter (\<lambda>r. bucket_key period r = Inr (date b)) rows))
          \<and> contacts b = sum_list (map (\<lambda>r. or0 (contacts r))
                        (filter (\<lambda>r. bucket_key period r = Inr (date b)) rows))
          \<and> calls b = sum_list (map (\<lambda>r. or0 (calls r))
                        (filter (\<lambda>r. bucket_key period r = Inr (date b)) rows))
          \<and> sales b = sum_list (map (\<lambda>r. or0 (sales r))
                        (filter (\<lambda>r. bucket_key period r = Inr (date b)) rows))"
    proof (intro ballI conjI)
      fix b assume b: "b \<in> set out"
      show "views b = sum_list (map (\<lambda>r. or0 (views r))
                        (filter (\<lambda>r. bucket_key period r = Inr (date b)) rows))"
        by (rule groupByPeriod_bucket[OF absorb_counters(1) new_bucket_counters(1) out b])
      show "clicks b = sum_list (map (\<lambda>r. or0 (clicks r))
                        (filter (\<lambda>r. bucket_key period r = Inr (date b)) rows))"
        by (rule groupByPeriod_bucket[OF absorb_counters(2) new_bucket_counters(2) out b])
      show "contacts b = sum_list (map (\<lambda>r. or0 (contacts r))
                        (filter (\<lambda>r. bucket_key period r = Inr (date b)) rows))"
        by (rule groupByPeriod_bucket[OF absorb_counters(3) new_bucket_counters(3) out b])
      show "calls b = sum_list (map (\<lambda>r. or0 (calls r))
                        (filter (\<lambda>r. bucket_key period r = Inr (date b)) rows))"
        by (rule groupByPeriod_bucket[OF absorb_counters(4) new_bucket_counters(4) out b])
      show "sales b = sum_list (map (\<lambda>r. or0 (sales r))
                        (filter (\<lambda>r. bucket_key period r = Inr (date b)) rows))"
        by (rule groupByPeriod_bucket[OF absorb_counters(5) new_bucket_counters(5) out b])
    qed
    show "sum_list (map views out) = sum_list (map (\<lambda>r. or0 (views r)) rows)"
      by (rule groupByPeriod_sum[OF absorb_counters(1) new_bucket_counters(1) out])
    show "sum_list (map clicks out) = sum_list (map (\<lambda>r. or0 (clicks r)) rows)"
      by (rule groupByPeriod_sum[OF absorb_counters(2) new_bucket_counters(2) out])
    show "sum_list (map contacts out) = sum_list (map (\<lambda>r. or0 (contacts r)) rows)"
      by (rule groupByPeriod_sum[OF absorb_counters(3) new_bucket_counters(3) out])
    show "sum_list (map calls out) = sum_list (map (\<lambda>r. or0 (calls r)) rows)"
      by (rule groupByPeriod_sum[OF absorb_counters(4) new_bucket_counters(4) out])
    show "sum_list (map sales out) = sum_list (map (\<lambda>r. or0 (sales r)) rows)"
      by (rule groupByPeriod_sum[OF absorb_counters(5) new_bucket_counters(5) out])
  qed
qed

theorem groupByPeriod_sorted_partition_witness:
  "valid_date ''2024-03-05'' \<and> valid_date ''2024-02-29''
   \<and> (\<exists>out. groupByPeriod
               [\<lparr>date = ''2024-03-05'', views = Some 4, clicks = None, contacts = Some 1,
                 calls = None, sales = Some 2\<rparr>,
                \<lparr>date = ''2024-02-29'', views = Some 1, clicks = Some 3, contacts = None,
                 calls = Some 1, sales = None\<rparr>] ''month'' = Inr out
             \<and> sorted (map date out)
             \<and> sum_list (map views out) = 5 \<and> sum_list (map clicks out) = 3)"
proof -
  let ?rows = "[\<lparr>date = ''2024-03-05'', views = Some (4::int), clicks = None, contacts = Some (1::int),
                 calls = None, sales = Some (2::int)\<rparr>,
                \<lparr>date = ''2024-02-29'', views = Some 1, clicks = Some 3, contacts = None,
                 calls = Some 1, sales = None\<rparr>]"
  have h: "\<forall>r\<in>set ?rows. valid_date (date r)" by code_simp
  from groupByPeriod_sorted_partition[OF h, of "''month''"]
  obtain out where "groupByPeriod ?rows ''month'' = Inr out" "sorted (map date out)"
    "sum_list (map views out) = sum_list (map (\<lambda>r. or0 (views r)) ?rows)"
    "sum_list (map clicks out) = sum_list (map (\<lambda>r. or0 (clicks r)) ?rows)"
    by blast
  then have "groupByPeriod ?rows ''month'' = Inr out \<and> sorted (map date out)
             \<and> sum_list (map views out) = 5 \<and> sum_list (map clicks out) = 3"
    by (simp add: or0_def)
  moreover have "valid_date ''2024-03-05''" and "valid_date ''2024-02-29''" using h by simp_all
  ultimately show ?thesis by blast
qed

subsection \<open>The aggregator on rows with arbitrary counters\<close>

lemma group_loop_js_step:
  assumes "bucket_key_js period r = Inr key"
  shows "group_loop_js period m (r # rs) =
         group_loop_js period
           (AList.update key
              (absorb_js (case map_of m key of None \<Rightarrow> new_bucket_js key | Some a \<Rightarrow> a) r) m) rs"
  using assms by (cases "map_of m key") (simp_all add: AList.update_conv')







lemma bucket_key_js_raw_of: "bucket_key_js period (raw_of r) = bucket_key period r"
  by (simp add: bucket_key_js_def bucket_key_def raw_of_def)

lemma or_default_raw: "or_default (map_option JNum x) 0 = JNum (or0 x)"
  by (cases x) (simp_all add: or_default_def or0_def truthy_def)

lemma absorb_js_raw_of:
  "absorb_js (js_bucket_of acc) (raw_of r) = js_bucket_of (absorb acc r)"
  by (simp add: absorb_js_def absorb_def js_bucket_of_def raw_of_def or_default_raw)

lemma new_bucket_js_of: "new_bucket_js k = js_bucket_of (new_bucket k)"
  by (simp add: new_bucket_js_def new_bucket_def js_bucket_of_def)

lemma map_of_map_snd:
  "map_of (map (\<lambda>p. (fst p, h (snd p))) m) k = map_option h (map_of m k)"
  by (induction m) auto

lemma update_map_snd:
  "AList.update k (h v) (map (\<lambda>p. (fst p, h (snd p))) m)
   = map (\<lambda>p. (fst p, h (snd p))) (AList.update k v m)"
  by (induction m) auto

lemma group_loop_js_canonical:
  "group_loop_js period (map (\<lambda>p. (fst p, js_bucket_of (snd p))) m) (map raw_of rows)
   = (case group_loop period m rows of
        Inl e \<Rightarrow> Inl e
      | Inr m' \<Rightarrow> Inr (map (\<lambda>p. (fst p, js_bucket_of (snd p))) m'))"
proof (induction rows arbitrary: m)
  case Nil
  show ?case by simp
next
  case (Cons r rs)
  show ?case
  proof (cases "bucket_key period r")
    case (Inl e)
    then show ?thesis by (simp add: bucket_key_js_raw_of)
  next
    case (Inr key)
    let ?h = "\<lambda>p. (fst p, js_bucket_of (snd p))"
    let ?acc = "case map_of m key of None \<Rightarrow> new_bucket key | Some a \<Rightarrow> a"
    have kjs: "bucket_key_js period (raw_of r) = Inr key"
      using Inr by (simp add: bucket_key_js_raw_of)
    have acc: "(case map_of (map ?h m) key of None \<Rightarrow> new_bucket_js key | Some a \<Rightarrow> a)
               = js_bucket_of ?acc"
      by (cases "map_of m key") (simp_all add: map_of_map_snd new_bucket_js_of)
    have "group_loop_js period (map ?h m) (map raw_of (r # rs))
          = group_loop_js period (map ?h (AList.update key (absorb ?acc r) m)) (map raw_of rs)"
      using group_loop_js_step[OF kjs, of "map ?h m" "map raw_of rs"]
      by (simp only: list.map acc absorb_js_raw_of update_map_snd)
    also have "\<dots> = (case group_loop period (AList.update key (absorb ?acc r) m) rs of
                        Inl e \<Rightarrow> Inl e | Inr m' \<Rightarrow> Inr (map ?h m'))"
      by (rule Cons.IH)
    also have "\<dots> = (case group_loop period m (r # rs) of
                        Inl e \<Rightarrow> Inl e | Inr m' \<Rightarrow> Inr (map ?h m'))"
      using Inr by (cases "map_of m key") (simp_all add: AList.update_conv')
    finally show ?thesis .
  qed
qed

lemma date_js_bucket_of: "date (js_bucket_of b) = date b"
  by (simp add: js_bucket_of_def)

lemma insort_js_bucket_of:
  "insort_key date (js_bucket_of x) (map js_bucket_of xs)
   = map js_bucket_of (insort_key date x xs)"
  by (induction xs) (simp_all add: date_js_bucket_of)

lemma sort_js_bucket_of:
  "sort_key date (map js_bucket_of xs) = map js_bucket_of (sort_key date xs)"
  by (induction xs) (simp_all add: insort_js_bucket_of)

lemma groupByPeriod_js_canonical:
  "groupByPeriod_js (map raw_of rows) period
   = (case groupByPeriod rows period of
        Inl e \<Rightarrow> Inl e
      | Inr bs \<Rightarrow> Inr (map js_bucket_of bs))"
proof -
  have "group_loop_js period [] (map raw_of rows)
        = (case group_loop period [] rows of
             Inl e \<Rightarrow> Inl e
           | Inr m' \<Rightarrow> Inr (map (\<lambda>p. (fst p, js_bucket_of (snd p))) m'))"
    using group_loop_js_canonical[of period "[]" rows] by simp
  moreover have "sort_key date (map snd (map (\<lambda>p. (fst p, js_bucket_of (snd p))) m'))
                 = map js_bucket_of (sort_key date (map snd m'))" for m' :: "(string \<times> bucket) list"
    using sort_js_bucket_of[of "map snd m'"] by (simp add: comp_def)
  ultimately show ?thesis
    by (simp add: groupByPeriod_js_def groupByPeriod_def split: sum.splits)
qed

subsection \<open>When the counters of a bucket are numbers\<close>




subsection \<open>Duplicate dates in the merge\<close>

lemma rows_map_snoc: "rows_map (rows @ [r]) = AList.update (date r) r (rows_map rows)"
  by (simp add: rows_map_def)

lemma map_of_rows_map:
  "map_of (rows_map rows) d =
     (if filter (\<lambda>x. date x = d) rows = [] then None
      else Some (last (filter (\<lambda>x. date x = d) rows)))"
proof (induction rows rule: rev_induct)
  case Nil
  show ?case by (simp add: rows_map_def)
next
  case (snoc r rows)
  show ?case
  proof (cases "date r = d")
    case True
    then show ?thesis by (simp add: rows_map_snoc AList.update_conv')
  next
    case False
    then show ?thesis using snoc by (simp add: rows_map_snoc AList.update_conv')
  qed
qed

lemma distinct_rows_map: "distinct (map fst (rows_map rows))"
  by (induction rows rule: rev_induct)
     (simp_all add: rows_map_def AList.distinct_update)

lemma map_of_merge_loop:
  "map_of (merge_loop m cs) d =
     (case filter (\<lambda>c. date c = d) cs of
        [] \<Rightarrow> map_of m d
      | f # fs \<Rightarrow>
          Some (with_calls_added (case map_of m d of None \<Rightarrow> date_only d | Some t \<Rightarrow> t) (f # fs)))"
proof (induction cs arbitrary: m)
  case Nil
  show ?case by simp
next
  case (Cons c cs)
  let ?t = "case map_of m (date c) of None \<Rightarrow> date_only (date c) | Some t \<Rightarrow> t"
  let ?t' = "?t\<lparr>calls := Some (or0 (calls ?t) + or0 (calls c))\<rparr>"
  have step: "merge_loop m (c # cs) = merge_loop (AList.update (date c) ?t' m) cs"
    by (simp add: Let_def)
  show ?case
  proof (cases "d = date c")
    case True
    have "with_calls_added ?t' fs = with_calls_added ?t (c # fs)" for fs
      by (simp add: with_calls_added_def or0_def)
    moreover have "?t' = with_calls_added ?t [c]"
      by (simp add: with_calls_added_def)
    ultimately show ?thesis
      unfolding step Cons.IH using True
      by (simp add: AList.update_conv' split: list.splits cong: option.case_cong)
  next
    case False
    then have "map_of (AList.update (date c) ?t' m) d = map_of m d"
      and "filter (\<lambda>c. date c = d) (c # cs) = filter (\<lambda>c. date c = d) cs"
      by (simp_all add: AList.update_conv')
    then show ?thesis unfolding step Cons.IH by (simp only:)
  qed
qed

lemma distinct_merge_loop:
  "distinct (map fst m) \<Longrightarrow> distinct (map fst (merge_loop m cs))"
  by (induction cs arbitrary: m) (simp_all add: Let_def AList.distinct_update)

lemma date_with_calls_added: "date (with_calls_added t cs) = date t"
  by (simp add: with_calls_added_def)

lemma rows_map_date:
  assumes "map_of (rows_map rows) k = Some x"
  shows "date x = k"
proof -
  let ?fs = "filter (\<lambda>x. date x = k) rows"
  from assms have ne: "?fs \<noteq> []" and x: "x = last ?fs"
    by (auto simp: map_of_rows_map split: if_splits)
  from ne have "last ?fs \<in> set ?fs" by (rule last_in_set)
  then show ?thesis using x by simp
qed

lemma merged_date:
  assumes "map_of (merge_loop (rows_map rows) cs) k = Some t"
  shows "date t = k"
proof (cases "filter (\<lambda>c. date c = k) cs")
  case Nil
  then have "map_of (rows_map rows) k = Some t"
    using assms by (simp add: map_of_merge_loop)
  then show ?thesis by (rule rows_map_date)
next
  case (Cons f fs)
  then have t: "t = with_calls_added
                  (case map_of (rows_map rows) k of None \<Rightarrow> date_only k | Some t \<Rightarrow> t) (f # fs)"
    using assms by (simp add: map_of_merge_loop)
  show ?thesis
  proof (cases "map_of (rows_map rows) k")
    case None
    then show ?thesis using t by (simp add: date_with_calls_added date_only_def)
  next
    case (Some x)
    then show ?thesis using t rows_map_date[OF Some] by (simp add: date_with_calls_added)
  qed
qed

lemma set_merge:
  "t \<in> set (merge rows cs) \<longleftrightarrow> (\<exists>k. map_of (merge_loop (rows_map rows) cs) k = Some t)"
proof -
  let ?M = "merge_loop (rows_map rows) cs"
  have d: "distinct (map fst ?M)" by (rule distinct_merge_loop[OF distinct_rows_map])
  have "t \<in> set (merge rows cs) \<longleftrightarrow> t \<in> snd ` set ?M" by (simp add: merge_def)
  also have "\<dots> \<longleftrightarrow> (\<exists>k. (k, t) \<in> set ?M)" by force
  also have "\<dots> \<longleftrightarrow> (\<exists>k. map_of ?M k = Some t)" using d by simp
  finally show ?thesis .
qed

lemma distinct_dates_merge: "distinct (map date (merge rows cs))"
proof -
  let ?M = "merge_loop (rows_map rows) cs"
  have d: "distinct (map fst ?M)" by (rule distinct_merge_loop[OF distinct_rows_map])
  have "\<forall>k t. map_of ?M k = Some t \<longrightarrow> date t = k" using merged_date by blast
  then have "map date (map snd ?M) = map fst ?M" using d by (rule map_of_dates)
  then have "distinct (map date (map snd ?M))" using d by (simp only:)
  then show ?thesis unfolding merge_def by (simp only: distinct_map_sort_key)
qed

lemma filter_single:
  assumes "distinct (map f xs)" and "x \<in> set xs"
  shows "filter (\<lambda>y. f y = f x) xs = [x]"
  using assms
proof (induction xs)
  case Nil
  then show ?case by simp
next
  case (Cons a xs)
  show ?case
  proof (cases "a = x")
    case True
    have "f x \<notin> f ` set xs" using Cons.prems(1) True by simp
    then have "\<forall>y\<in>set xs. f y \<noteq> f x" by (metis imageI)
    then have "filter (\<lambda>y. f y = f x) xs = []" by (simp add: filter_empty_conv)
    then show ?thesis using True by simp
  next
    case False
    then have x: "x \<in> set xs" using Cons.prems(2) by simp
    then have "f x \<in> f ` set xs" by (rule imageI)
    moreover have "f a \<notin> f ` set xs" using Cons.prems(1) by simp
    ultimately have "f a \<noteq> f x" by metis
    then show ?thesis using Cons.IH x Cons.prems(1) by simp
  qed
qed

text \<open>
  C3 as stated (the first of two rows with the same date wins) fails: of two
  item rows for 2024-01-01 the merged row carries the counters of the second.
\<close>

theorem merge_first_duplicate_counterexample:
  "merge
     [\<lparr>date = ''2024-01-01'', views = Some 1, clicks = None, contacts = Some 1,
       calls = Some 0, sales = Some 0\<rparr>,
      \<lparr>date = ''2024-01-01'', views = Some 2, clicks = None, contacts = Some 2,
       calls = Some 0, sales = Some 0\<rparr>]
     []
   = [\<lparr>date = ''2024-01-01'', views = Some 2, clicks = None, contacts = Some 2,
       calls = Some 0, sales = Some 0\<rparr>]"
  by code_simp

text \<open>
  C3, amended. The last row wins: for every date of an item row the merged
  output list has exactly one row with that date (the rows of the list with
  that date are one row, once), and it carries the views, clicks, contacts and
  sales of the last item row with that date; its calls are those of that row,
  increased by the calls of the call pairs of the date when there are any.
\<close>

theorem merge_last_duplicate_wins:
  assumes "r \<in> set rows"
  shows "\<exists>t. filter (\<lambda>t'. date t' = date r) (merge rows cs) = [t]
            \<and> t \<in> set (merge rows cs)
            \<and> (\<forall>t'\<in>set (merge rows cs). date t' = date r \<longrightarrow> t' = t)
            \<and> date t = date r
            \<and> views t = views (last (filter (\<lambda>x. date x = date r) rows))
            \<and> clicks t = clicks (last (filter (\<lambda>x. date x = date r) rows))
            \<and> contacts t = contacts (last (filter (\<lambda>x. date x = date r) rows))
            \<and> sales t = sales (last (filter (\<lambda>x. date x = date r) rows))
            \<and> calls t =
                (if filter (\<lambda>c. date c = date r) cs = []
                 then calls (last (filter (\<lambda>x. date x = date r) rows))
                 else Some (or0 (calls (last (filter (\<lambda>x. date x = date r) rows)))
                            + sum_list (map (\<lambda>c. or0 (calls c))
                                (filter (\<lambda>c. date c = date r) cs))))"
proof -
  let ?M = "merge_loop (rows_map rows) cs"
  let ?l = "last (filter (\<lambda>x. date x = date r) rows)"
  let ?fs = "filter (\<lambda>c. date c = date r) cs"
  define t where "t = (if ?fs = [] then ?l else with_calls_added ?l ?fs)"
  have "filter (\<lambda>x. date x = date r) rows \<noteq> []"
    using assms by (auto simp: filter_empty_conv)
  then have R: "map_of (rows_map rows) (date r) = Some ?l"
    by (simp add: map_of_rows_map)
  have M: "map_of ?M (date r) = Some t"
    unfolding t_def map_of_merge_loop R by (simp split: list.splits)
  have mem: "t \<in> set (merge rows cs)" using M set_merge by blast
  have uniq: "\<forall>t'\<in>set (merge rows cs). date t' = date r \<longrightarrow> t' = t"
  proof (intro ballI impI)
    fix t' assume "t' \<in> set (merge rows cs)" and e: "date t' = date r"
    then obtain k where k: "map_of ?M k = Some t'" using set_merge by blast
    then have "k = date r" using merged_date[OF k] e by simp
    then show "t' = t" using k M by simp
  qed
  have dt: "date t = date r" by (rule merged_date[OF M])
  show ?thesis
  proof (intro exI[of _ t] conjI)
    show "filter (\<lambda>t'. date t' = date r) (merge rows cs) = [t]"
      using filter_single[OF distinct_dates_merge mem] dt by simp
    show "t \<in> set (merge rows cs)" by (rule mem)
    show "\<forall>t'\<in>set (merge rows cs). date t' = date r \<longrightarrow> t' = t" by (rule uniq)
    show "date t = date r" by (rule dt)
    show "views t = views ?l" by (simp add: t_def with_calls_added_def)
    show "clicks t = clicks ?l" by (simp add: t_def with_calls_added_def)
    show "contacts t = contacts ?l" by (simp add: t_def with_calls_added_def)
    show "sales t = sales ?l" by (simp add: t_def with_calls_added_def)
    show "calls t = (if ?fs = [] then calls ?l
                     else Some (or0 (calls ?l) + sum_list (map (\<lambda>c. or0 (calls c)) ?fs)))"
      by (simp add: t_def with_calls_added_def)
  qed
qed

theorem merge_last_duplicate_wins_witness:
  "\<lparr>date = ''2024-01-01'', views = Some 1, clicks = None, contacts = Some 1,
     calls = Some 0, sales = Some (0::int)\<rparr>
     \<in> set [\<lparr>date = ''2024-01-01'', views = Some 1, clicks = None, contacts = Some 1,
              calls = Some 0, sales = Some 0\<rparr>,
             \<lparr>date = ''2024-01-01'', views = Some 2, clicks = None, contacts = Some 2,
              calls = Some 0, sales = Some 0\<rparr>]
   \<and> (\<exists>t. filter (\<lambda>t'. date t' = ''2024-01-01'')
              (merge
                 [\<lparr>date = ''2024-01-01'', views = Some 1, clicks = None, contacts = Some 1,
                   calls = Some 0, sales = Some 0\<rparr>,
                  \<lparr>date = ''2024-01-01'', views = Some 2, clicks = None, contacts = Some 2,
                   calls = Some 0, sales = Some 0\<rparr>]
                 [\<lparr>date = ''2024-01-01'', views = None, clicks = None, contacts = None,
                   calls = Some 3, sales = None\<rparr>]) = [t]
          \<and> t \<in> set (merge
                 [\<lparr>date = ''2024-01-01'', views = Some 1, clicks = None, contacts = Some 1,
                   calls = Some 0, sales = Some 0\<rparr>,
                  \<lparr>date = ''2024-01-01'', views = Some 2, clicks = None, contacts = Some 2,
                   calls = Some 0, sales = Some 0\<rparr>]
                 [\<lparr>date = ''2024-01-01'', views = None, clicks = None, contacts = None,
                   calls = Some 3, sales = None\<rparr>])
          \<and> views t = Some 2 \<and> contacts t = Some 2 \<and> calls t = Some 3)"
proof -
  let ?r1 = "\<lparr>date = ''2024-01-01'', views = Some (1::int), clicks = None, contacts = Some (1::int),
              calls = Some (0::int), sales = Some (0::int)\<rparr>"
  let ?r2 = "\<lparr>date = ''2024-01-01'', views = Some (2::int), clicks = None, contacts = Some (2::int),
              calls = Some (0::int), sales = Some (0::int)\<rparr>"
  let ?c = "\<lparr>date = ''2024-01-01'', views = None, clicks = None, contacts = None,
             calls = Some (3::int), sales = None\<rparr>"
  have h: "?r1 \<in> set [?r1, ?r2]" by simp
  from merge_last_duplicate_wins[OF h, of "[?c]"]
  obtain t where "filter (\<lambda>t'. date t' = date ?r1) (merge [?r1, ?r2] [?c]) = [t]"
    and "t \<in> set (merge [?r1, ?r2] [?c])"
    and "views t = views (last (filter (\<lambda>x. date x = date ?r1) [?r1, ?r2]))"
    and "contacts t = contacts (last (filter (\<lambda>x. date x = date ?r1) [?r1, ?r2]))"
    and "calls t =
           (if filter (\<lambda>c. date c = date ?r1) [?c] = []
            then calls (last (filter (\<lambda>x. date x = date ?r1) [?r1, ?r2]))
            else Some (or0 (calls (last (filter (\<lambda>x. date x = date ?r1) [?r1, ?r2])))
                       + sum_list (map (\<lambda>c. or0 (calls c))
                           (filter (\<lambda>c. date c = date ?r1) [?c]))))"
    by blast
  then have "filter (\<lambda>t'. date t' = ''2024-01-01'') (merge [?r1, ?r2] [?c]) = [t]
             \<and> t \<in> set (merge [?r1, ?r2] [?c])
             \<and> views t = Some 2 \<and> contacts t = Some 2 \<and> calls t = Some 3"
    by (simp add: or0_def)
  then show ?thesis using h by blast
qed

subsection \<open>The end-to-end example\<close>

text \<open>
  C2. The item rows of 2024-01-01 (10 views, 2 contacts) and 2024-01-02
  (5 views, 1 contact), merged with the call pair of 2024-01-01 (3 calls) and
  aggregated by \<^verbatim>\<open>"week"\<close>, give the single bucket of Monday 2024-01-01
  with 15 views, 0 clicks, 3 contacts, 3 calls and 0 sales.
\<close>

theorem end_to_end_week:
  "groupByPeriod
     (merge
        [\<lparr>date = ''2024-01-01'', views = Some 10, clicks = None, contacts = Some 2,
          calls = None, sales = None\<rparr>,
         \<lparr>date = ''2024-01-02'', views = Some 5, clicks = None, contacts = Some 1,
          calls = None, sales = None\<rparr>]
        [\<lparr>date = ''2024-01-01'', views = None, clicks = None, contacts = None,
          calls = Some 3, sales = None\<rparr>])
     ''week''
   = Inr [\<lparr>date = ''2024-01-01'', views = 15, clicks = 0, contacts = 3, calls = 3, sales = 0\<rparr>]
   \<and> new_Date ''2024-01-01T00:00:00Z'' = Some 19723 \<and> (WeekDay 19723 + 6) mod 7 = 0"
  by code_simp

subsection \<open>The date series of a record\<close>

lemma adaptItemsStats_single:
  "adaptItemsStats (JObj [(''result'', JArr [b])]) =
     (case iterate (date_series b) of Inl e \<Rightarrow> Inl e | Inr ds \<Rightarrow> push_rows item_row ds)"
  by (simp add: adaptItemsStats_def array_under_def opt_get_def get_def split: sum.splits)

lemma truthy_Some: "truthy v \<Longrightarrow> \<exists>x. v = Some x"
  by (cases v) (simp_all add: truthy_def)

lemma date_series_chosen: "date_series b = chosen_series b"
proof -
  have "(case v of None \<Rightarrow> Some (JArr []) | Some x \<Rightarrow> Some x) = v" if "truthy v" for v
    using truthy_Some[OF that] by auto
  then show ?thesis
    by (simp add: date_series_def chosen_series_def js_or_def)
qed

lemma buckets_loop_collect: "buckets_loop bs = collect (map record_rows bs)"
proof (induction bs)
  case Nil
  show ?case by simp
next
  case (Cons b bs)
  show ?case
  proof (cases "record_rows b")
    case (Inl e)
    then show ?thesis
      by (auto simp: record_rows_def date_series_chosen split: sum.splits)
  next
    case (Inr rs)
    then show ?thesis using Cons.IH
      by (auto simp: record_rows_def date_series_chosen split: sum.splits)
  qed
qed

lemma item_row_of_char: "item_row (JStr s) = Inr None"
  by (simp add: item_row_def get_def js_or_def truthy_def)

lemma push_rows_chars: "push_rows item_row (map (\<lambda>c. JStr [c]) s) = Inr []"
  by (induction s) (simp_all add: item_row_of_char)

text \<open>
  C4 as stated (the first non-empty of \<^verbatim>\<open>stats\<close>, \<^verbatim>\<open>dates\<close>,
  \<^verbatim>\<open>statistics\<close> is used) fails: a record with an empty \<^verbatim>\<open>stats\<close> list
  and one entry under \<^verbatim>\<open>dates\<close> contributes no row.
\<close>

theorem empty_stats_hides_dates_counterexample:
  "adaptItemsStats
     (JObj [(''result'',
        JArr [JObj [(''stats'', JArr []),
                    (''dates'', JArr [JObj [(''date'', JStr ''2024-01-01''), (''views'', JNum 7)]])]])])
   = Inr []"
  by code_simp

text \<open>
  C4, amended. For every record, under \<^verbatim>\<open>result\<close> or \<^verbatim>\<open>data\<close>, the date
  series is the first truthy value among \<^verbatim>\<open>stats\<close>, \<^verbatim>\<open>dates\<close> and
  \<^verbatim>\<open>statistics\<close>, in that order, and the empty list when none is truthy:
  \<^verbatim>\<open>dates\<close> is used only when \<^verbatim>\<open>stats\<close> is falsy (missing, \<^verbatim>\<open>null\<close>,
  \<^verbatim>\<open>false\<close>, 0 or the empty string), \<^verbatim>\<open>statistics\<close> only when both are
  falsy. The adapter returns the rows of all records in order. A chosen value
  that is a list, empty or not, gives the rows of its entries; one that is a
  string gives no row; any other truthy value (a number, \<^verbatim>\<open>true\<close>, an
  object) is not iterable and makes the adapter throw.
\<close>

theorem date_series_first_truthy:
  "date_series b = chosen_series b
   \<and> (truthy (opt_get b ''stats'') \<longrightarrow> date_series b = opt_get b ''stats'')
   \<and> (\<not> truthy (opt_get b ''stats'') \<and> truthy (opt_get b ''dates'')
        \<longrightarrow> date_series b = opt_get b ''dates'')
   \<and> (\<not> truthy (opt_get b ''stats'') \<and> \<not> truthy (opt_get b ''dates'')
        \<and> truthy (opt_get b ''statistics'')
        \<longrightarrow> date_series b = opt_get b ''statistics'')
   \<and> (\<not> truthy (opt_get b ''stats'') \<and> \<not> truthy (opt_get b ''dates'')
        \<and> \<not> truthy (opt_get b ''statistics'')
        \<longrightarrow> date_series b = Some (JArr []))
   \<and> adaptItemsStats raw
       = collect (map record_rows (array_under raw ''result'' @ array_under raw ''data''))
   \<and> (date_series b = Some (JArr xs)
        \<longrightarrow> adaptItemsStats (JObj [(''result'', JArr [b])]) = push_rows item_row xs)
   \<and> (date_series b = Some (JStr s)
        \<longrightarrow> adaptItemsStats (JObj [(''result'', JArr [b])]) = Inr [])
   \<and> (date_series b = Some v \<and> (\<forall>ys. v \<noteq> JArr ys) \<and> (\<forall>t. v \<noteq> JStr t)
        \<longrightarrow> adaptItemsStats (JObj [(''result'', JArr [b])]) = Inl TypeError)"
proof (intro conjI impI)
  show "date_series b = chosen_series b" by (rule date_series_chosen)
  show "date_series b = opt_get b ''stats''" if "truthy (opt_get b ''stats'')"
    using that by (simp add: date_series_def js_or_def)
  show "date_series b = opt_get b ''dates''"
    if "\<not> truthy (opt_get b ''stats'') \<and> truthy (opt_get b ''dates'')"
    using that by (simp add: date_series_def js_or_def)
  show "date_series b = opt_get b ''statistics''"
    if "\<not> truthy (opt_get b ''stats'') \<and> \<not> truthy (opt_get b ''dates'')
        \<and> truthy (opt_get b ''statistics'')"
    using that by (simp add: date_series_def js_or_def)
  show "date_series b = Some (JArr [])"
    if "\<not> truthy (opt_get b ''stats'') \<and> \<not> truthy (opt_get b ''dates'')
        \<and> \<not> truthy (opt_get b ''statistics'')"
    using that by (simp add: date_series_def js_or_def)
  show "adaptItemsStats raw
        = collect (map record_rows (array_under raw ''result'' @ array_under raw ''data''))"
    unfolding adaptItemsStats_def by (rule buckets_loop_collect)
  show "adaptItemsStats (JObj [(''result'', JArr [b])]) = push_rows item_row xs"
    if "date_series b = Some (JArr xs)"
    using that by (simp add: adaptItemsStats_single iterate_def)
  show "adaptItemsStats (JObj [(''result'', JArr [b])]) = Inr []"
    if "date_series b = Some (JStr s)"
    using that by (simp add: adaptItemsStats_single iterate_def push_rows_chars)
  show "adaptItemsStats (JObj [(''result'', JArr [b])]) = Inl TypeError"
    if "date_series b = Some v \<and> (\<forall>ys. v \<noteq> JArr ys) \<and> (\<forall>t. v \<noteq> JStr t)"
    using that by (cases v) (simp_all add: adaptItemsStats_single iterate_def)
qed

theorem date_series_first_truthy_witness:
  "truthy (opt_get (JObj [(''stats'', JStr ''n/a''),
                          (''dates'', JArr [JObj [(''date'', JStr ''2024-01-01'')]])]) ''stats'')
   \<and> date_series (JObj [(''stats'', JStr ''n/a''),
                        (''dates'', JArr [JObj [(''date'', JStr ''2024-01-01'')]])])
     = Some (JStr ''n/a'')
   \<and> adaptItemsStats (JObj [(''result'',
         JArr [JObj [(''stats'', JStr ''n/a''),
                     (''dates'', JArr [JObj [(''date'', JStr ''2024-01-01'')]])]])])
     = Inr []
   \<and> \<not> truthy (opt_get (JObj [(''stats'', JNum 0),
                              (''dates'', JArr [JObj [(''day'', JStr ''2024-01-02'')]])]) ''stats'')
   \<and> truthy (opt_get (JObj [(''stats'', JNum 0),
                            (''dates'', JArr [JObj [(''day'', JStr ''2024-01-02'')]])]) ''dates'')
   \<and> adaptItemsStats (JObj [(''result'',
         JArr [JObj [(''stats'', JNum 0),
                     (''dates'', JArr [JObj [(''day'', JStr ''2024-01-02'')]])]])])
     = push_rows item_row [JObj [(''day'', JStr ''2024-01-02'')]]"
proof -
  let ?b1 = "JObj [(''stats'', JStr ''n/a''),
                   (''dates'', JArr [JObj [(''date'', JStr ''2024-01-01'')]])]"
  let ?e2 = "JObj [(''day'', JStr ''2024-01-02'')]"
  let ?b2 = "JObj [(''stats'', JNum 0), (''dates'', JArr [?e2])]"
  have t1: "truthy (opt_get ?b1 ''stats'')" by (simp add: opt_get_def get_def truthy_def)
  have g1: "opt_get ?b1 ''stats'' = Some (JStr ''n/a'')" by (simp add: opt_get_def get_def)
  note th1 = date_series_first_truthy[where b="?b1" and s="''n/a''" and raw=JNull
      and xs="[]" and v=JNull]
  have d1: "date_series ?b1 = Some (JStr ''n/a'')"
    using th1[THEN conjunct2, THEN conjunct1] t1 g1 by simp
  have a1: "adaptItemsStats (JObj [(''result'', JArr [?b1])]) = Inr []"
    using th1[THEN conjunct2, THEN conjunct2, THEN conjunct2, THEN conjunct2, THEN conjunct2, THEN conjunct2, THEN conjunct2, THEN conjunct1] d1 by simp
  have f2: "\<not> truthy (opt_get ?b2 ''stats'')" by (simp add: opt_get_def get_def truthy_def)
  have t2: "truthy (opt_get ?b2 ''dates'')" by (simp add: opt_get_def get_def truthy_def)
  have g2: "opt_get ?b2 ''dates'' = Some (JArr [?e2])" by (simp add: opt_get_def get_def)
  note th2 = date_series_first_truthy[where b="?b2" and xs="[?e2]" and raw=JNull
      and s="[]" and v=JNull]
  have d2: "date_series ?b2 = Some (JArr [?e2])"
    using th2[THEN conjunct2, THEN conjunct2, THEN conjunct1] f2 t2 g2 by simp
  have a2: "adaptItemsStats (JObj [(''result'', JArr [?b2])]) = push_rows item_row [?e2]"
    using th2[THEN conjunct2, THEN conjunct2, THEN conjunct2, THEN conjunct2, THEN conjunct2, THEN conjunct2, THEN conjunct1] d2 by simp
  from t1 d1 a1 f2 t2 a2 show ?thesis by simp
qed

subsection \<open>The fallback of \<^verbatim>\<open>views\<close>\<close>

lemma nullish_first_defined:
  "nullish a (nullish b (nullish c (Some (JNum 0)))) = Some (first_defined [a, b, c])"
  by (auto simp: nullish_def split: option.splits json.splits)

lemma item_row_views:
  assumes "item_row d = Inr (Some r)"
  shows "views r = Some (first_defined [get d ''views'', get d ''uniqViews'', get d ''totalViews''])"
  using assms unfolding item_row_def nullish_first_defined
  by (auto split: json.splits option.splits if_splits)

text \<open>
  C8. An entry with \<^verbatim>\<open>uniqViews\<close> 5 and no \<^verbatim>\<open>views\<close> yields a row with 5
  views; an entry with \<^verbatim>\<open>views\<close> 1 and \<^verbatim>\<open>uniqViews\<close> 5 yields 1 view; in
  every row the adapter pushes, \<^verbatim>\<open>views\<close> is the first defined value among
  \<^verbatim>\<open>views\<close>, \<^verbatim>\<open>uniqViews\<close> and \<^verbatim>\<open>totalViews\<close> of the entry, and 0
  when none of them is defined.
\<close>

theorem adaptItemsStats_views_fallback:
  "adaptItemsStats (JObj [(''result'', JArr [JObj [(''stats'',
       JArr [JObj [(''date'', JStr ''2024-01-01''), (''uniqViews'', JNum 5)]])]])])
     = Inr [\<lparr>date = JStr ''2024-01-01'', views = Some (JNum 5), clicks = Some JNull,
             contacts = Some (JNum 0), calls = Some (JNum 0), sales = Some (JNum 0)\<rparr>]
   \<and> adaptItemsStats (JObj [(''result'', JArr [JObj [(''stats'',
       JArr [JObj [(''date'', JStr ''2024-01-01''), (''views'', JNum 1), (''uniqViews'', JNum 5)]])]])])
     = Inr [\<lparr>date = JStr ''2024-01-01'', views = Some (JNum 1), clicks = Some JNull,
             contacts = Some (JNum 0), calls = Some (JNum 0), sales = Some (JNum 0)\<rparr>]
   \<and> (\<forall>d r. item_row d = Inr (Some r) \<longrightarrow>
         views r = Some (first_defined [get d ''views'', get d ''uniqViews'', get d ''totalViews'']))
   \<and> first_defined [None, None, None] = JNum 0"
proof (intro conjI allI impI)
  show "adaptItemsStats (JObj [(''result'', JArr [JObj [(''stats'',
       JArr [JObj [(''date'', JStr ''2024-01-01''), (''uniqViews'', JNum 5)]])]])])
     = Inr [\<lparr>date = JStr ''2024-01-01'', views = Some (JNum 5), clicks = Some JNull,
             contacts = Some (JNum 0), calls = Some (JNum 0), sales = Some (JNum 0)\<rparr>]"
    by code_simp
  show "adaptItemsStats (JObj [(''result'', JArr [JObj [(''stats'',
       JArr [JObj [(''date'', JStr ''2024-01-01''), (''views'', JNum 1), (''uniqViews'', JNum 5)]])]])])
     = Inr [\<lparr>date = JStr ''2024-01-01'', views = Some (JNum 1), clicks = Some JNull,
             contacts = Some (JNum 0), calls = Some (JNum 0), sales = Some (JNum 0)\<rparr>]"
    by code_simp
  show "first_defined [None, None, None] = JNum 0" by simp
next
  fix d r assume "item_row d = Inr (Some r)"
  then show "views r = Some (first_defined [get d ''views'', get d ''uniqViews'', get d ''totalViews''])"
    by (rule item_row_views)
qed

theorem adaptItemsStats_views_fallback_witness:
  "item_row (JObj [(''date'', JStr ''2024-01-01''), (''views'', JNull), (''totalViews'', JNum 9)])
     = Inr (Some \<lparr>date = JStr ''2024-01-01'', views = Some (JNum 9), clicks = Some JNull,
                   contacts = Some (JNum 0), calls = Some (JNum 0), sales = Some (JNum 0)\<rparr>)
   \<and> views \<lparr>date = JStr ''2024-01-01'', views = Some (JNum 9), clicks = Some JNull,
             contacts = Some (JNum 0), calls = Some (JNum 0), sales = Some (JNum 0)\<rparr>
     = Some (first_defined
         [get (JObj [(''date'', JStr ''2024-01-01''), (''views'', JNull), (''totalViews'', JNum 9)]) ''views'',
          get (JObj [(''date'', JStr ''2024-01-01''), (''views'', JNull), (''totalViews'', JNum 9)]) ''uniqViews'',
          get (JObj [(''date'', JStr ''2024-01-01''), (''views'', JNull), (''totalViews'', JNum 9)]) ''totalViews''])"
proof -
  let ?d = "JObj [(''date'', JStr ''2024-01-01''), (''views'', JNull), (''totalViews'', JNum 9)]"
  let ?r = "\<lparr>date = JStr ''2024-01-01'', views = Some (JNum 9), clicks = Some JNull,
             contacts = Some (JNum 0), calls = Some (JNum 0), sales = Some (JNum 0)\<rparr>"
  have h: "item_row ?d = Inr (Some ?r)" by code_simp
  from adaptItemsStats_views_fallback h
  have "views ?r = Some (first_defined [get ?d ''views'', get ?d ''uniqViews'', get ?d ''totalViews''])"
    by blast
  with h show ?thesis by blast
qed

subsection \<open>When the token exchange fails\<close>

lemma getAccessToken_outcome:
  assumes "getAccessToken lt c now f now' = (res, c')"
  shows "(isl res \<longleftrightarrow>
            \<not> cache_fresh lt c now
            \<and> (f = Rejected
               \<or> (\<exists>r. f = Resolved r
                      \<and> (\<not> ok r \<or> body_json r = None \<or> body_json r = Some JNull))))
       \<and> (isl res \<longrightarrow> accessToken c' = accessToken c \<and> tokenExp c' = tokenExp c)
       \<and> (cache_fresh lt c now \<longrightarrow> res = Inr (accessToken c) \<and> c' = c)
       \<and> (\<not> cache_fresh lt c now \<longrightarrow> exchanges c' = exchanges c + 1)
       \<and> (\<forall>r j. \<not> cache_fresh lt c now \<and> f = Resolved r \<and> ok r \<and> body_json r = Some j \<and> j \<noteq> JNull
              \<longrightarrow> res = Inr (get j ''access_token'')
                  \<and> accessToken c' = get j ''access_token''
                  \<and> tokenExp c' = js_add (Num now') (or_default (get j ''expires_in'') 3600))"
proof (cases "cache_fresh lt c now")
  case True
  then show ?thesis using assms by (auto simp: getAccessToken_def)
next
  case False
  show ?thesis
  proof (cases f)
    case Rejected
    then show ?thesis using assms False by (auto simp: getAccessToken_def)
  next
    case (Resolved r)
    show ?thesis
    proof (cases "ok r")
      case nok: False
      then show ?thesis using assms False Resolved by (auto simp: getAccessToken_def)
    next
      case isok: True
      show ?thesis
      proof (cases "body_json r")
        case None
        then show ?thesis using assms False Resolved isok by (auto simp: getAccessToken_def)
      next
        case (Some j)
        show ?thesis
        proof (cases "j = JNull")
          case True
          then show ?thesis using assms False Resolved isok Some
            by (auto simp: getAccessToken_def strict_get_def)
        next
          case nn: False
          then have sg: "strict_get j ''access_token'' = Inr (get j ''access_token'')"
            by (cases j) (simp_all add: strict_get_def)
          show ?thesis using assms False Resolved isok Some nn
            by (auto simp: getAccessToken_def sg)
        qed
      qed
    qed
  qed
qed






subsection \<open>The window of the cached token\<close>

text \<open>
  C6. After an exchange at clock \<open>t0\<close> that stored a non-empty token with
  \<^verbatim>\<open>expires_in\<close> 3600, every call at a time before \<open>t0 + 3540\<close> returns
  that token and leaves the cache, and the count of exchanges, as they are;
  every call at or after \<open>t0 + 3540\<close> makes one more exchange, and when that
  exchange answers with a success status and a JSON body it returns and stores
  the token of the new body.
\<close>

theorem token_cache_window:
  assumes "\<not> cache_fresh lt c0 n0" and "ok r0" and "body_json r0 = Some (JObj kvs)"
    and "map_of kvs ''access_token'' = Some (JStr tok)" and "tok \<noteq> []"
    and "map_of kvs ''expires_in'' = Some (JNum 3600)"
  shows "\<exists>c1. getAccessToken lt c0 n0 (Resolved r0) t0 = (Inr (Some (JStr tok)), c1)
           \<and> tokenExp c1 = Num (t0 + 3600)
           \<and> (\<forall>now f now'. now < t0 + 3540 \<longrightarrow>
                 getAccessToken lt c1 now f now' = (Inr (Some (JStr tok)), c1))
           \<and> (\<forall>now f now' res c2.
                 t0 + 3540 \<le> now \<and> getAccessToken lt c1 now f now' = (res, c2) \<longrightarrow>
                   exchanges c2 = exchanges c1 + 1
                   \<and> (\<forall>r j. f = Resolved r \<and> ok r \<and> body_json r = Some j \<and> j \<noteq> JNull \<longrightarrow>
                         res = Inr (get j ''access_token'')
                         \<and> accessToken c2 = get j ''access_token''))"
proof -
  define c1 where
    "c1 = c0\<lparr>exchanges := exchanges c0 + 1, accessToken := Some (JStr tok),
              tokenExp := Num (t0 + 3600)\<rparr>"
  have first: "getAccessToken lt c0 n0 (Resolved r0) t0 = (Inr (Some (JStr tok)), c1)"
    using assms
    by (simp add: getAccessToken_def strict_get_def get_def or_default_def truthy_def c1_def)
  have fresh: "cache_fresh lt c1 now \<longleftrightarrow> now < t0 + 3540" for now
    using assms(5) by (auto simp: cache_fresh_def c1_def truthy_def)
  have hit: "getAccessToken lt c1 now f now' = (Inr (Some (JStr tok)), c1)"
    if "now < t0 + 3540" for now f now'
    using that fresh by (simp add: getAccessToken_def c1_def)
  have miss: "exchanges c2 = exchanges c1 + 1
              \<and> (\<forall>r j. f = Resolved r \<and> ok r \<and> body_json r = Some j \<and> j \<noteq> JNull \<longrightarrow>
                    res = Inr (get j ''access_token'') \<and> accessToken c2 = get j ''access_token'')"
    if "t0 + 3540 \<le> now" and run: "getAccessToken lt c1 now f now' = (res, c2)"
    for now f now' res c2
  proof -
    have nf: "\<not> cache_fresh lt c1 now" using that(1) fresh by simp
    note all = getAccessToken_outcome[OF run]
    have "exchanges c2 = exchanges c1 + 1"
      using all[THEN conjunct2, THEN conjunct2, THEN conjunct2, THEN conjunct1] nf by simp
    moreover have "\<forall>r j. f = Resolved r \<and> ok r \<and> body_json r = Some j \<and> j \<noteq> JNull \<longrightarrow>
                    res = Inr (get j ''access_token'') \<and> accessToken c2 = get j ''access_token''"
      using all[THEN conjunct2, THEN conjunct2, THEN conjunct2, THEN conjunct2] nf by blast
    ultimately show ?thesis by simp
  qed
  have exp: "tokenExp c1 = Num (t0 + 3600)" by (simp add: c1_def)
  show ?thesis
  proof (intro exI[of _ c1] conjI allI impI)
    show "getAccessToken lt c0 n0 (Resolved r0) t0 = (Inr (Some (JStr tok)), c1)" by (rule first)
    show "tokenExp c1 = Num (t0 + 3600)" by (rule exp)
    show "getAccessToken lt c1 now f now' = (Inr (Some (JStr tok)), c1)"
      if "now < t0 + 3540" for now f now'
      using that by (rule hit)
  next
    fix now f now' res c2
    assume h: "t0 + 3540 \<le> now \<and> getAccessToken lt c1 now f now' = (res, c2)"
    then have m: "exchanges c2 = exchanges c1 + 1
              \<and> (\<forall>r j. f = Resolved r \<and> ok r \<and> body_json r = Some j \<and> j \<noteq> JNull \<longrightarrow>
                    res = Inr (get j ''access_token'') \<and> accessToken c2 = get j ''access_token'')"
      using miss by blast
    show "exchanges c2 = exchanges c1 + 1" using m by simp
    fix r j
    assume "f = Resolved r \<and> ok r \<and> body_json r = Some j \<and> j \<noteq> JNull"
    then show "res = Inr (get j ''access_token'')" and "accessToken c2 = get j ''access_token''"
      using m by blast+
  qed
qed

theorem token_cache_window_witness:
  "\<not> cache_fresh (\<lambda>now s. False) initial_cache 1000
   \<and> getAccessToken (\<lambda>now s. False) initial_cache 1000
        (Resolved \<lparr>ok = True, status = 200, body_text = [],
           body_json = Some (JObj [(''access_token'', JStr ''abc''), (''expires_in'', JNum 3600)])\<rparr>)
        1000
      = (Inr (Some (JStr ''abc'')),
         \<lparr>accessToken = Some (JStr ''abc''), tokenExp = Num 4600, exchanges = 1\<rparr>)
   \<and> getAccessToken (\<lambda>now s. False)
        \<lparr>accessToken = Some (JStr ''abc''), tokenExp = Num 4600, exchanges = 1\<rparr>
        4539 Rejected 4539
      = (Inr (Some (JStr ''abc'')),
         \<lparr>accessToken = Some (JStr ''abc''), tokenExp = Num 4600, exchanges = 1\<rparr>)"
proof -
  let ?lt = "\<lambda>(now::int) (s::string). False"
  let ?kvs = "[(''access_token'', JStr ''abc''), (''expires_in'', JNum 3600)]"
  let ?r0 = "\<lparr>ok = True, status = 200, body_text = [], body_json = Some (JObj ?kvs)\<rparr>"
  let ?c1 = "\<lparr>accessToken = Some (JStr ''abc''), tokenExp = Num 4600, exchanges = 1\<rparr>"
  have h1: "\<not> cache_fresh ?lt initial_cache 1000"
    by (simp add: cache_fresh_def initial_cache_def truthy_def)
  have h2: "ok ?r0" and h3: "body_json ?r0 = Some (JObj ?kvs)" by simp_all
  have h4: "map_of ?kvs ''access_token'' = Some (JStr ''abc'')" by simp
  have h5: "''abc'' \<noteq> []" by simp
  have h6: "map_of ?kvs ''expires_in'' = Some (JNum 3600)" by simp
  have e: "getAccessToken ?lt initial_cache 1000 (Resolved ?r0) 1000 = (Inr (Some (JStr ''abc'')), ?c1)"
    by (simp add: getAccessToken_def cache_fresh_def initial_cache_def truthy_def strict_get_def
        get_def or_default_def)
  from token_cache_window[OF h1 h2 h3 h4 h5 h6, of 1000]
  obtain c1 where a: "getAccessToken ?lt initial_cache 1000 (Resolved ?r0) 1000
                      = (Inr (Some (JStr ''abc'')), c1)"
    and b: "\<forall>now f now'. now < 1000 + 3540 \<longrightarrow>
              getAccessToken ?lt c1 now f now' = (Inr (Some (JStr ''abc'')), c1)"
    by blast
  from a e have "c1 = ?c1" by simp
  with b have "getAccessToken ?lt ?c1 4539 Rejected 4539 = (Inr (Some (JStr ''abc'')), ?c1)"
    by simp
  with h1 e show ?thesis by blast
qed

subsection \<open>A failed call-stats fetch\<close>

lemma with_calls_failed: "call_stats_failed f2 \<Longrightarrow> with_calls rows f2 = Some rows"
  by (auto simp: call_stats_failed_def with_calls_def split: fetch_result.splits)

lemma item_row_calls: "item_row d = Inr (Some r) \<Longrightarrow> calls r = Some (JNum 0)"
  by (auto simp: item_row_def split: json.splits option.splits if_splits)

lemma push_rows_calls:
  "push_rows item_row ds = Inr rs \<Longrightarrow> \<forall>r\<in>set rs. calls r = Some (JNum 0)"
proof (induction ds arbitrary: rs)
  case Nil
  then show ?case by simp
next
  case (Cons d ds)
  from Cons.prems obtain ro rs' where ro: "item_row d = Inr ro"
    and rs': "push_rows item_row ds = Inr rs'"
    and rs: "rs = (case ro of None \<Rightarrow> rs' | Some x \<Rightarrow> x # rs')"
    by (auto split: sum.splits)
  from Cons.IH[OF rs'] have "\<forall>r\<in>set rs'. calls r = Some (JNum 0)" .
  then show ?case using rs ro item_row_calls by (cases ro) auto
qed

lemma buckets_loop_calls:
  "buckets_loop bs = Inr rs \<Longrightarrow> \<forall>r\<in>set rs. calls r = Some (JNum 0)"
proof (induction bs arbitrary: rs)
  case Nil
  then show ?case by simp
next
  case (Cons b bs)
  from Cons.prems obtain ds r1 r2 where "iterate (date_series b) = Inr ds"
    and r1: "push_rows item_row ds = Inr r1"
    and r2: "buckets_loop bs = Inr r2" and rs: "rs = r1 @ r2"
    by (auto split: sum.splits)
  then show ?case using push_rows_calls[OF r1] Cons.IH[OF r2] by auto
qed

lemma canonical_calls:
  "canonical r = Some x \<Longrightarrow> calls r = Some (JNum 0) \<Longrightarrow> calls x = Some 0"
  by (auto simp: canonical_def counter_def split: json.splits option.splits)

lemma canonical_rows_calls:
  "canonical_rows rs = Some xs \<Longrightarrow> \<forall>r\<in>set rs. calls r = Some (JNum 0)
   \<Longrightarrow> \<forall>x\<in>set xs. calls x = Some 0"
proof (induction rs arbitrary: xs)
  case Nil
  then show ?case by simp
next
  case (Cons r rs)
  from Cons.prems(1) obtain x xs' where x: "canonical r = Some x"
    and xs': "canonical_rows rs = Some xs'" and xs: "xs = x # xs'"
    by (auto split: option.splits)
  have "calls x = Some 0" using canonical_calls[OF x] Cons.prems(2) by simp
  moreover have "\<forall>x\<in>set xs'. calls x = Some 0" using Cons.IH[OF xs'] Cons.prems(2) by simp
  ultimately show ?case using xs by simp
qed

lemma sum_list_zeros:
  fixes f :: "'a \<Rightarrow> int"
  shows "\<forall>x\<in>set xs. f x = 0 \<Longrightarrow> sum_list (map f xs) = 0"
  by (induction xs) simp_all

lemma items_only_calls:
  assumes "items_only j1 grouping = Some (Ok200 series)" and "b \<in> set series"
  shows "calls b = 0"
proof -
  let ?g = "case grouping of None \<Rightarrow> ''day'' | Some g \<Rightarrow> g"
  from assms(1) obtain raw_rows rows where raw: "adaptItemsStats j1 = Inr raw_rows"
    and can: "canonical_rows raw_rows = Some rows"
    and grp: "groupByPeriod rows ?g = Inr series"
    by (auto simp: items_only_def split: sum.splits option.splits)
  have "\<forall>r\<in>set raw_rows. calls r = Some (JNum 0)"
    using raw buckets_loop_calls by (simp add: adaptItemsStats_def)
  then have z: "\<forall>x\<in>set rows. calls x = Some 0" by (rule canonical_rows_calls[OF can])
  have "calls b = sum_list (map (\<lambda>r. or0 (calls r))
                    (filter (\<lambda>r. bucket_key ?g r = Inr (date b)) rows))"
    by (rule groupByPeriod_bucket[OF absorb_counters(4) new_bucket_counters(4) grp assms(2)])
  also have "\<dots> = 0" using z by (intro sum_list_zeros) (simp add: or0_def)
  finally show ?thesis .
qed

text \<open>
  C7. When the call-stats fetch fails (rejected, non-success status, or a body
  that is not JSON), the merge is skipped: the rows stay as they are, the
  response of \<^verbatim>\<open>/stats\<close> is the one built from the item rows alone, the
  same for every such failure, and in a series so returned the calls of every
  bucket are 0.
\<close>

theorem stats_survives_call_failure:
  assumes "call_stats_failed f2" and "body_json r1 = Some j1"
  shows "stats (Inr tok) (Resolved r1) f2 grouping = items_only j1 grouping
       \<and> (\<forall>rows. with_calls rows f2 = Some rows)
       \<and> (\<forall>series. items_only j1 grouping = Some (Ok200 series) \<longrightarrow>
             (\<forall>b\<in>set series. calls b = 0))"
proof (intro conjI allI impI ballI)
  show "stats (Inr tok) (Resolved r1) f2 grouping = items_only j1 grouping"
    using assms
    by (simp add: stats_def items_only_def with_calls_failed split: sum.splits option.splits)
  show "with_calls rows f2 = Some rows" for rows
    using assms(1) by (rule with_calls_failed)
  show "calls b = 0" if "items_only j1 grouping = Some (Ok200 series)" and "b \<in> set series"
    for series b
    using that by (rule items_only_calls)
qed

theorem stats_survives_call_failure_witness:
  "call_stats_failed (Resolved \<lparr>ok = False, status = 503, body_text = ''down'', body_json = None\<rparr>)
   \<and> stats (Inr (Some (JStr ''t'')))
       (Resolved \<lparr>ok = True, status = 200, body_text = [],
          body_json = Some (JObj [(''result'', JArr [JObj [(''stats'',
            JArr [JObj [(''date'', JStr ''2024-01-01''), (''views'', JNum 10), (''contacts'', JNum 2)]])]])])\<rparr>)
       (Resolved \<lparr>ok = False, status = 503, body_text = ''down'', body_json = None\<rparr>)
       (Some ''week'')
     = Some (Ok200 [\<lparr>date = ''2024-01-01'', views = 10, clicks = 0, contacts = 2, calls = 0, sales = 0\<rparr>])"
proof -
  let ?f2 = "Resolved \<lparr>ok = False, status = 503, body_text = ''down'', body_json = None\<rparr>"
  let ?j1 = "JObj [(''result'', JArr [JObj [(''stats'',
            JArr [JObj [(''date'', JStr ''2024-01-01''), (''views'', JNum 10), (''contacts'', JNum 2)]])]])]"
  let ?r1 = "\<lparr>ok = True, status = 200, body_text = [], body_json = Some ?j1\<rparr>"
  have h1: "call_stats_failed ?f2" by (simp add: call_stats_failed_def)
  have h2: "body_json ?r1 = Some ?j1" by simp
  have e: "items_only ?j1 (Some ''week'')
           = Some (Ok200 [\<lparr>date = ''2024-01-01'', views = 10, clicks = 0, contacts = 2, calls = 0, sales = 0\<rparr>])"
    by code_simp
  from stats_survives_call_failure[OF h1 h2, of "Some (JStr ''t'')" "Some ''week''"] e h1
  show ?thesis by simp
qed

subsection \<open>The calendar: years, months and days\<close>

lemma div_bounds: "0 < k \<Longrightarrow> k * (x div k) \<le> x \<and> x < k * (x div k) + (k::int)"
  using pos_mod_bound[of k x] pos_mod_sign[of k x] mult_div_mod_eq[of k x] by linarith

lemma div_succ:
  "0 < k \<Longrightarrow> (x + 1) div k = x div k + (if (x + 1) mod k = 0 then 1 else (0::int))"
proof -
  assume k: "0 < k"
  define q where "q = (x + 1) div k"
  define r where "r = (x + 1) mod k"
  have e: "x + 1 = k * q + r" and r: "0 \<le> r" "r < k"
    using k by (simp_all add: q_def r_def)
  show ?thesis
  proof (cases "r = 0")
    case True
    have "x = (k - 1) + (q - 1) * k" using e True by (simp add: algebra_simps)
    then have "x div k = (k - 1) div k + (q - 1)"
      using k div_mult_self1[of k "k - 1" "q - 1"] by simp
    then have "x div k = q - 1" using k by (simp add: div_pos_pos_trivial)
    then show ?thesis using True by (simp add: q_def r_def)
  next
    case False
    have "x = (r - 1) + q * k" using e by (simp add: algebra_simps)
    then have "x div k = (r - 1) div k + q"
      using k div_mult_self1[of k "r - 1" q] by simp
    then have "x div k = q" using k r False by (simp add: div_pos_pos_trivial)
    then show ?thesis using False by (simp add: q_def r_def)
  qed
qed

lemma mod_shift4: "(y - 1968) mod 4 = (y::int) mod 4"
proof -
  have "(y - 1968) mod 4 = (y + 4 * (-492)) mod 4" by simp
  also have "\<dots> = y mod 4" by (rule mod_mult_self2)
  finally show ?thesis .
qed

lemma mod_shift100: "(y - 1900) mod 100 = (y::int) mod 100"
proof -
  have "(y - 1900) mod 100 = (y + 100 * (-19)) mod 100" by simp
  also have "\<dots> = y mod 100" by (rule mod_mult_self2)
  finally show ?thesis .
qed

lemma mod_shift400: "(y - 1600) mod 400 = (y::int) mod 400"
proof -
  have "(y - 1600) mod 400 = (y + 400 * (-4)) mod 400" by simp
  also have "\<dots> = y mod 400" by (rule mod_mult_self2)
  finally show ?thesis .
qed

lemma mod100_mod4: "(y::int) mod 100 = 0 \<Longrightarrow> y mod 4 = 0"
proof -
  assume "y mod 100 = 0"
  then have "100 dvd y" by (simp add: dvd_eq_mod_eq_0)
  moreover have "(4::int) dvd 100" by simp
  ultimately have "4 dvd y" using dvd_trans by blast
  then show ?thesis by (simp add: dvd_eq_mod_eq_0)
qed

lemma mod400_mod100: "(y::int) mod 400 = 0 \<Longrightarrow> y mod 100 = 0"
proof -
  assume "y mod 400 = 0"
  then have "400 dvd y" by (simp add: dvd_eq_mod_eq_0)
  moreover have "(100::int) dvd 400" by simp
  ultimately have "100 dvd y" using dvd_trans by blast
  then show ?thesis by (simp add: dvd_eq_mod_eq_0)
qed

lemma DayFromYear_Suc: "DayFromYear (y + 1) = DayFromYear y + DaysInYear y"
proof -
  have a: "(y + 1 - 1969) div 4 = (y - 1969) div 4 + (if y mod 4 = 0 then 1 else 0)"
    using div_succ[of 4 "y - 1969"] mod_shift4[of y] by (simp add: algebra_simps)
  have b: "(y + 1 - 1901) div 100 = (y - 1901) div 100 + (if y mod 100 = 0 then 1 else 0)"
    using div_succ[of 100 "y - 1901"] mod_shift100[of y] by (simp add: algebra_simps)
  have c: "(y + 1 - 1601) div 400 = (y - 1601) div 400 + (if y mod 400 = 0 then 1 else 0)"
    using div_succ[of 400 "y - 1601"] mod_shift400[of y] by (simp add: algebra_simps)
  show ?thesis
    unfolding DayFromYear_def DaysInYear_def a b c
    using mod100_mod4[of y] mod400_mod100[of y] by auto
qed

lemma year_lin:
  fixes a b c y :: int
  assumes "4 * a \<le> y - 1969" "y - 1969 < 4 * a + 4"
    and "100 * b \<le> y - 1901" "y - 1901 < 100 * b + 100"
    and "400 * c \<le> y - 1601" "y - 1601 < 400 * c + 400"
  shows "400 * (365 * (y - 1970) + a - b + c) \<le> 146097 * (y - 1970) + 597"
    and "146097 * (y - 1970) - 610 < 400 * (365 * (y - 1970) + a - b + c)"
  using assms unfolding right_diff_distrib distrib_left by linarith+

lemma DayFromYear_bounds:
  "400 * DayFromYear y \<le> 146097 * (y - 1970) + 597"
  "146097 * (y - 1970) - 610 < 400 * DayFromYear y"
proof -
  have a: "4 * ((y - 1969) div 4) \<le> y - 1969 \<and> y - 1969 < 4 * ((y - 1969) div 4) + 4"
    by (rule div_bounds) simp
  have b: "100 * ((y - 1901) div 100) \<le> y - 1901
           \<and> y - 1901 < 100 * ((y - 1901) div 100) + 100"
    by (rule div_bounds) simp
  have c: "400 * ((y - 1601) div 400) \<le> y - 1601
           \<and> y - 1601 < 400 * ((y - 1601) div 400) + 400"
    by (rule div_bounds) simp
  show "400 * DayFromYear y \<le> 146097 * (y - 1970) + 597"
    unfolding DayFromYear_def using a b c by (intro year_lin(1)) simp_all
  show "146097 * (y - 1970) - 610 < 400 * DayFromYear y"
    unfolding DayFromYear_def using a b c by (intro year_lin(2)) simp_all
qed

lemma DayFromYear_mono: "y < y' \<Longrightarrow> DayFromYear y < DayFromYear y'"
proof -
  assume "y < y'"
  then have "146097 * (y - 1970) + 597 \<le> 146097 * (y' - 1970) - 610"
    unfolding right_diff_distrib by linarith
  then have "400 * DayFromYear y < 400 * DayFromYear y'"
    using DayFromYear_bounds(1)[of y] DayFromYear_bounds(2)[of y'] by linarith
  then show ?thesis by simp
qed

lemma estimate_bracket:
  fixes n :: int
  defines "q \<equiv> (400 * n) div 146097"
  shows "DayFromYear (1970 + q - 1) \<le> n" and "n < DayFromYear (1970 + q + 2)"
proof -
  have q: "146097 * q \<le> 400 * n \<and> 400 * n < 146097 * q + 146097"
    unfolding q_def by (rule div_bounds) simp
  have "400 * DayFromYear (1970 + q - 1) \<le> 146097 * (q - 1) + 597"
    using DayFromYear_bounds(1)[of "1970 + q - 1"] by simp
  then have "400 * DayFromYear (1970 + q - 1) \<le> 400 * n"
    using q unfolding right_diff_distrib by linarith
  then show "DayFromYear (1970 + q - 1) \<le> n" by simp
  have "146097 * (q + 2) - 610 < 400 * DayFromYear (1970 + q + 2)"
    using DayFromYear_bounds(2)[of "1970 + q + 2"] by simp
  then have "400 * n < 400 * DayFromYear (1970 + q + 2)"
    using q unfolding distrib_left by linarith
  then show "n < DayFromYear (1970 + q + 2)" by simp
qed

lemma YearFromDay_bracket:
  "DayFromYear (YearFromDay n) \<le> n \<and> n < DayFromYear (YearFromDay n + 1)"
proof -
  define y where "y = 1970 + (400 * n) div 146097"
  have lo: "DayFromYear (y - 1) \<le> n" and hi: "n < DayFromYear (y + 2)"
    using estimate_bracket[of n] by (simp_all add: y_def)
  have Y: "YearFromDay n = (if DayFromYear (y + 1) \<le> n then y + 1
                            else if DayFromYear y \<le> n then y else y - 1)"
    by (simp add: YearFromDay_def y_def Let_def)
  show ?thesis using lo hi unfolding Y by (auto simp: add.assoc)
qed

lemma YearFromDay_unique:
  assumes "DayFromYear y \<le> n" and "n < DayFromYear (y + 1)"
  shows "YearFromDay n = y"
proof (rule ccontr)
  assume ne: "YearFromDay n \<noteq> y"
  let ?z = "YearFromDay n"
  note b = YearFromDay_bracket[of n]
  show False
  proof (cases "?z < y")
    case True
    then have "?z + 1 \<le> y" by simp
    then have "DayFromYear (?z + 1) \<le> DayFromYear y"
      using DayFromYear_mono[of "?z + 1" y] by (cases "?z + 1 = y") auto
    then show False using b assms by linarith
  next
    case False
    then have "y + 1 \<le> ?z" using ne by simp
    then have "DayFromYear (y + 1) \<le> DayFromYear ?z"
      using DayFromYear_mono[of "y + 1" ?z] by (cases "y + 1 = ?z") auto
    then show False using b assms by linarith
  qed
qed

lemma InLeapYear_cases: "InLeapYear y = 0 \<or> InLeapYear y = 1"
  by (simp add: InLeapYear_def)

lemma DaysInYear_leap: "DaysInYear y = 365 + InLeapYear y"
  by (simp add: InLeapYear_def DaysInYear_def)

lemma month_cases:
  assumes "0 \<le> m" and "m \<le> (11::int)"
  shows "m = 0 \<or> m = 1 \<or> m = 2 \<or> m = 3 \<or> m = 4 \<or> m = 5 \<or> m = 6 \<or> m = 7
         \<or> m = 8 \<or> m = 9 \<or> m = 10 \<or> m = 11"
proof -
  have "m \<in> set [0..11]" using assms by simp
  also have "[0..11::int] = [0, 1, 2, 3, 4, 5, 6, 7, 8, 9, 10, 11]" by code_simp
  finally show ?thesis by simp
qed

lemma day_within_year:
  assumes "0 \<le> m" and "m \<le> 11" and "1 \<le> dt" and "dt \<le> DaysInMonth y m"
  shows "0 \<le> MonthStart (InLeapYear y) m + dt - 1"
    and "MonthStart (InLeapYear y) m + dt - 1 < DaysInYear y"
  using month_cases[OF assms(1,2)] InLeapYear_cases[of y] assms(3,4)
  by (elim disjE; simp add: MonthStart_def DaysInMonth_def DaysInYear_leap)+

lemma YearFromDay_MakeDay:
  assumes "0 \<le> m" and "m \<le> 11" and "1 \<le> dt" and "dt \<le> DaysInMonth y m"
  shows "YearFromDay (MakeDay y m dt) = y"
proof (rule YearFromDay_unique)
  show "DayFromYear y \<le> MakeDay y m dt"
    using day_within_year(1)[OF assms] by (simp add: MakeDay_def)
  show "MakeDay y m dt < DayFromYear (y + 1)"
    using day_within_year(2)[OF assms] by (simp add: MakeDay_def DayFromYear_Suc)
qed

lemma MonthFromDay_MakeDay:
  assumes "0 \<le> m" and "m \<le> 11" and "1 \<le> dt" and "dt \<le> DaysInMonth y m"
  shows "MonthFromDay (MakeDay y m dt) = m"
proof -
  have y: "YearFromDay (MakeDay y m dt) = y" by (rule YearFromDay_MakeDay[OF assms])
  have d: "MakeDay y m dt - DayFromYear y = MonthStart (InLeapYear y) m + dt - 1"
    by (simp add: MakeDay_def)
  show ?thesis
    unfolding MonthFromDay_def y Let_def d
    using month_cases[OF assms(1,2)] InLeapYear_cases[of y] assms(3,4)
    by (elim disjE; simp add: MonthStart_def DaysInMonth_def)
qed

lemma DateFromDay_MakeDay:
  assumes "0 \<le> m" and "m \<le> 11" and "1 \<le> dt" and "dt \<le> DaysInMonth y m"
  shows "DateFromDay (MakeDay y m dt) = dt"
  unfolding DateFromDay_def Let_def YearFromDay_MakeDay[OF assms] MonthFromDay_MakeDay[OF assms]
  by (simp add: MakeDay_def)

subsection \<open>Printing and reading a calendar date\<close>

lemma digit_val_digit_char: "k < 10 \<Longrightarrow> digit_val (digit_char k) = Some k"
  by (simp add: digit_val_def digit_char_def Let_def)

lemma digit_char_0: "digit_char 0 = CHR ''0''"
  by code_simp

lemma digit_val_less: "digit_val c = Some k \<Longrightarrow> k < 10"
  by (auto simp: digit_val_def Let_def split: if_splits)

lemma show_nat_1: "n < 10 \<Longrightarrow> show_nat n = [digit_char n]"
  by (simp add: show_nat.simps[of n])

lemma show_nat_2:
  assumes "10 \<le> n" and "n < 100"
  shows "show_nat n = [digit_char (n div 10), digit_char (n mod 10)]"
proof -
  have "n div 10 < 10" using assms by simp
  then show ?thesis using assms by (simp add: show_nat.simps[of n] show_nat_1)
qed

lemma show_nat_3:
  assumes "100 \<le> n" and "n < 1000"
  shows "show_nat n = [digit_char (n div 100), digit_char (n div 10 mod 10), digit_char (n mod 10)]"
proof -
  have "10 \<le> n div 10" and "n div 10 < 100" using assms by simp_all
  moreover have "n div 10 div 10 = n div 100" by (simp add: div_mult2_eq[symmetric])
  ultimately show ?thesis
    using assms by (simp add: show_nat.simps[of n] show_nat_2)
qed

lemma show_nat_4:
  assumes "1000 \<le> n" and "n < 10000"
  shows "show_nat n = [digit_char (n div 1000), digit_char (n div 100 mod 10),
                       digit_char (n div 10 mod 10), digit_char (n mod 10)]"
proof -
  have "100 \<le> n div 10" and "n div 10 < 1000" using assms by simp_all
  moreover have "n div 10 div 100 = n div 1000" by (simp add: div_mult2_eq[symmetric])
  moreover have "n div 10 div 10 = n div 100" by (simp add: div_mult2_eq[symmetric])
  ultimately show ?thesis
    using assms by (simp add: show_nat.simps[of n] show_nat_3)
qed

lemma pad2:
  assumes "n < 100"
  shows "padStart 2 (show_nat n) = [digit_char (n div 10), digit_char (n mod 10)]"
proof (cases "n < 10")
  case True
  then show ?thesis by (simp add: padStart_def show_nat_1 digit_char_0)
next
  case False
  then show ?thesis using assms by (simp add: padStart_def show_nat_2)
qed

lemma replicate_small:
  "replicate 1 c = [c]" "replicate 2 c = [c, c]" "replicate 3 c = [c, c, c]"
  by (simp_all add: numeral_2_eq_2 numeral_3_eq_3)

lemma pad4:
  assumes "n < 10000"
  shows "padStart 4 (show_nat n) = [digit_char (n div 1000), digit_char (n div 100 mod 10),
                                    digit_char (n div 10 mod 10), digit_char (n mod 10)]"
proof -
  consider "n < 10" | "10 \<le> n" "n < 100" | "100 \<le> n" "n < 1000" | "1000 \<le> n"
    by linarith
  then show ?thesis
  proof cases
    case 1
    have "padStart 4 (show_nat n) = replicate 3 CHR ''0'' @ [digit_char n]"
      using 1 by (simp add: padStart_def show_nat_1)
    then show ?thesis using 1 by (simp add: replicate_small digit_char_0)
  next
    case 2
    have "padStart 4 (show_nat n) = replicate 2 CHR ''0'' @ [digit_char (n div 10), digit_char (n mod 10)]"
      using 2 by (simp add: padStart_def show_nat_2)
    then show ?thesis using 2 by (simp add: replicate_small digit_char_0)
  next
    case 3
    have "padStart 4 (show_nat n)
          = replicate 1 CHR ''0'' @ [digit_char (n div 100), digit_char (n div 10 mod 10), digit_char (n mod 10)]"
      using 3 by (simp add: padStart_def show_nat_3)
    then show ?thesis using 3 by (simp add: replicate_small digit_char_0)
  next
    case 4
    then show ?thesis using assms by (simp add: padStart_def show_nat_4)
  qed
qed

lemma digits_val_2:
  "a < 10 \<Longrightarrow> b < 10 \<Longrightarrow> digits_val 0 [digit_char a, digit_char b] = Some (10 * a + b)"
  by (simp add: digit_val_digit_char)

lemma digits_val_4:
  "a < 10 \<Longrightarrow> b < 10 \<Longrightarrow> c < 10 \<Longrightarrow> d < 10 \<Longrightarrow>
   digits_val 0 [digit_char a, digit_char b, digit_char c, digit_char d]
   = Some (1000 * a + 100 * b + 10 * c + d)"
  by (simp add: digit_val_digit_char)

lemma digits_val_bound:
  "digits_val acc cs = Some v \<Longrightarrow> v < (acc + 1) * 10 ^ length cs"
proof (induction cs arbitrary: acc)
  case Nil
  then show ?case by simp
next
  case (Cons c cs)
  from Cons.prems obtain k where k: "digit_val c = Some k"
    and r: "digits_val (10 * acc + k) cs = Some v"
    by (auto split: option.splits)
  have "k < 10" using k by (rule digit_val_less)
  then have "10 * acc + k + 1 \<le> (acc + 1) * 10" by simp
  then have "(10 * acc + k + 1) * 10 ^ length cs \<le> (acc + 1) * 10 * 10 ^ length cs"
    by (rule mult_le_mono1)
  moreover have "v < (10 * acc + k + 1) * 10 ^ length cs" using Cons.IH[OF r] .
  moreover have "(acc + 1) * 10 * 10 ^ length cs = (acc + 1) * 10 ^ length (c # cs)"
    by (simp only: length_Cons power_Suc mult.assoc)
  ultimately show ?case by (simp only: less_le_trans)
qed

lemma digits_of_2:
  fixes n :: nat
  shows "10 * (n div 10) + n mod 10 = n"
  by simp

lemma digits_of_4:
  fixes n :: nat
  shows "1000 * (n div 1000) + 100 * (n div 100 mod 10) + 10 * (n div 10 mod 10) + n mod 10 = n"
proof -
  have a: "n div 10 div 10 = n div 100" by (simp add: div_mult2_eq[symmetric])
  have b: "n div 100 div 10 = n div 1000" by (simp add: div_mult2_eq[symmetric])
  have "n = 10 * (n div 10) + n mod 10" by simp
  also have "n div 10 = 10 * (n div 100) + n div 10 mod 10"
    using div_mult_mod_eq[of "n div 10" 10] a by simp
  also have "n div 100 = 10 * (n div 1000) + n div 100 mod 10"
    using div_mult_mod_eq[of "n div 100" 10] b by simp
  finally show ?thesis by simp
qed

lemma DaysInMonth_le: "DaysInMonth y m \<le> 31"
  using InLeapYear_cases[of y] by (auto simp: DaysInMonth_def)

lemma iso_string_explicit:
  assumes "y < 10000" and "m < 100" and "d < 100"
  shows "iso_string y m d =
     [digit_char (y div 1000), digit_char (y div 100 mod 10), digit_char (y div 10 mod 10),
      digit_char (y mod 10), CHR ''-'', digit_char (m div 10), digit_char (m mod 10), CHR ''-'',
      digit_char (d div 10), digit_char (d mod 10)]"
  using assms by (simp add: iso_string_def pad4 pad2)

lemma new_Date_iso_string:
  assumes "y < 10000" and "1 \<le> m" and "m \<le> 12" and "1 \<le> d"
    and "int d \<le> DaysInMonth (int y) (int m - 1)"
  shows "new_Date (iso_string y m d @ ''T00:00:00Z'') = Some (MakeDay (int y) (int m - 1) (int d))"
proof -
  have d: "d < 100" using assms(5) DaysInMonth_le[of "int y" "int m - 1"] by linarith
  have m: "m < 100" using assms(3) by simp
  have y4: "digits_val 0 [digit_char (y div 1000), digit_char (y div 100 mod 10),
                          digit_char (y div 10 mod 10), digit_char (y mod 10)] = Some y"
    using assms(1) digits_val_4[of "y div 1000" "y div 100 mod 10" "y div 10 mod 10" "y mod 10"]
      digits_of_4[of y] by simp
  have m2: "digits_val 0 [digit_char (m div 10), digit_char (m mod 10)] = Some m"
    using m digits_val_2[of "m div 10" "m mod 10"] by simp
  have d2: "digits_val 0 [digit_char (d div 10), digit_char (d mod 10)] = Some d"
    using d digits_val_2[of "d div 10" "d mod 10"] by simp
  show ?thesis
    unfolding iso_string_explicit[OF assms(1) m d] new_Date_def
    using assms(2-5) by (simp add: y4 m2 d2 del: digits_val.simps)
qed

lemma new_Date_SomeD:
  assumes "new_Date s = Some n"
  shows "\<exists>y m d. y < 10000 \<and> 1 \<le> m \<and> m \<le> 12 \<and> 1 \<le> d
           \<and> int d \<le> DaysInMonth (int y) (int m - 1)
           \<and> n = MakeDay (int y) (int m - 1) (int d)"
proof -
  from assms have len: "length s = 20"
    by (auto simp: new_Date_def split: if_splits)
  from assms obtain y m d where y: "digits_val 0 (take 4 s) = Some y"
    and md: "1 \<le> m" "m \<le> 12" "1 \<le> d" "int d \<le> DaysInMonth (int y) (int m - 1)"
    and n: "n = MakeDay (int y) (int m - 1) (int d)"
    by (auto simp: new_Date_def split: if_splits option.splits)
  have "y < (0 + 1) * 10 ^ length (take 4 s)" by (rule digits_val_bound[OF y])
  then have "y < 10000" using len by simp
  then show ?thesis using md n by blast
qed

lemma iso_string_length:
  assumes "y < 10000" and "m < 100" and "d < 100"
  shows "length (iso_string y m d) = 10"
  by (simp add: iso_string_explicit[OF assms])

lemma toISOString_MakeDay:
  assumes "y < 10000" and "1 \<le> m" and "m \<le> 12" and "1 \<le> d"
    and "int d \<le> DaysInMonth (int y) (int m - 1)"
  shows "toISOString (Some (MakeDay (int y) (int m - 1) (int d)))
         = Inr (iso_string y m d @ ''T00:00:00.000Z'')"
proof -
  have v: "0 \<le> int m - 1" "int m - 1 \<le> 11" "1 \<le> int d"
    using assms(2,3,4) by simp_all
  note rt = YearFromDay_MakeDay[OF v assms(5)] MonthFromDay_MakeDay[OF v assms(5)]
    DateFromDay_MakeDay[OF v assms(5)]
  have "iso_year (int y) = padStart 4 (show_nat y)"
    using assms(1) by (simp add: iso_year_def)
  then show ?thesis
    by (simp add: toISOString_def rt iso_string_def)
qed

lemma day_key_is_iso:
  assumes "bucket_key ''day'' r = Inr k"
  shows "\<exists>y m d. y < 10000 \<and> 1 \<le> m \<and> m \<le> 12 \<and> 1 \<le> d
           \<and> int d \<le> DaysInMonth (int y) (int m - 1) \<and> k = iso_string y m d"
proof -
  from assms obtain n where n: "new_Date (date r @ ''T00:00:00Z'') = Some n"
    by (cases "new_Date (date r @ ''T00:00:00Z'')")
       (auto simp: bucket_key_def period_key_def Let_def toISOString_def)
  with assms have c: "(case toISOString (Some n) of Inl e \<Rightarrow> Inl e | Inr s \<Rightarrow> Inr (take 10 s)) = Inr k"
    by (simp add: bucket_key_def period_key_def Let_def)
  from new_Date_SomeD[OF n] obtain y m d where v: "y < 10000" "1 \<le> m" "m \<le> 12" "1 \<le> d"
    "int d \<le> DaysInMonth (int y) (int m - 1)" and nd: "n = MakeDay (int y) (int m - 1) (int d)"
    by blast
  have d: "d < 100" using v(5) DaysInMonth_le[of "int y" "int m - 1"] by linarith
  have m: "m < 100" using v(3) by simp
  have "k = take 10 (iso_string y m d @ ''T00:00:00.000Z'')"
    using c unfolding nd toISOString_MakeDay[OF v] by simp
  then have "k = iso_string y m d"
    using iso_string_length[OF v(1) m d] by simp
  then show ?thesis using v by blast
qed

lemma day_key_fixed:
  assumes "bucket_key ''day'' r = Inr k" and "date r' = k"
  shows "bucket_key ''day'' r' = Inr k"
proof -
  from day_key_is_iso[OF assms(1)] obtain y m d where v: "y < 10000" "1 \<le> m" "m \<le> 12" "1 \<le> d"
    "int d \<le> DaysInMonth (int y) (int m - 1)" and k: "k = iso_string y m d"
    by blast
  have d: "d < 100" using v(5) DaysInMonth_le[of "int y" "int m - 1"] by linarith
  have m: "m < 100" using v(3) by simp
  have "new_Date (date r' @ ''T00:00:00Z'') = Some (MakeDay (int y) (int m - 1) (int d))"
    unfolding assms(2) k by (rule new_Date_iso_string[OF v])
  then show ?thesis
    using iso_string_length[OF v(1) m d]
    by (simp add: bucket_key_def period_key_def Let_def toISOString_MakeDay[OF v] k)
qed

subsection \<open>Aggregating by day twice\<close>

lemma update_new: "k \<notin> fst ` set m \<Longrightarrow> AList.update k v m = m @ [(k, v)]"
  by (induction m) auto

lemma absorb_new_as_row: "absorb (new_bucket (date b)) (as_row b) = b"
  by (simp add: absorb_def new_bucket_def as_row_def or0_def)

lemma regroup:
  assumes "distinct (map date bs)"
    and "\<forall>b\<in>set bs. bucket_key period (as_row b) = Inr (date b)"
    and "\<forall>b\<in>set bs. date b \<notin> fst ` set m"
  shows "group_loop period m (map as_row bs) = Inr (m @ map (\<lambda>b. (date b, b)) bs)"
  using assms
proof (induction bs arbitrary: m)
  case Nil
  show ?case by simp
next
  case (Cons b bs)
  have key: "bucket_key period (as_row b) = Inr (date b)" using Cons.prems(2) by simp
  have new: "date b \<notin> fst ` set m" using Cons.prems(3) by simp
  then have none: "map_of m (date b) = None" by (simp add: map_of_eq_None_iff)
  have step: "group_loop period m (map as_row (b # bs))
              = group_loop period (m @ [(date b, b)]) (map as_row bs)"
    using group_loop_step[OF key, of m "map as_row bs"]
    by (simp add: none absorb_new_as_row update_new[OF new])
  have "\<forall>x\<in>set bs. date x \<notin> fst ` set (m @ [(date b, b)])"
  proof
    fix x assume x: "x \<in> set bs"
    then have "date x \<in> date ` set bs" by (rule imageI)
    moreover have "date b \<notin> date ` set bs" using Cons.prems(1) by simp
    ultimately have "date x \<noteq> date b" by metis
    moreover have "date x \<notin> fst ` set m" using Cons.prems(3) x by simp
    ultimately show "date x \<notin> fst ` set (m @ [(date b, b)])" by simp
  qed
  then have "group_loop period (m @ [(date b, b)]) (map as_row bs)
             = Inr ((m @ [(date b, b)]) @ map (\<lambda>b. (date b, b)) bs)"
    using Cons.IH Cons.prems(1,2) by simp
  then show ?case unfolding step by simp
qed

text \<open>
  C9. Aggregation by \<^verbatim>\<open>"day"\<close> is idempotent: when the aggregator returns
  a series for the period \<^verbatim>\<open>"day"\<close>, aggregating that series by
  \<^verbatim>\<open>"day"\<close> again returns the same series.
\<close>

theorem groupByPeriod_day_idempotent:
  assumes "groupByPeriod rows ''day'' = Inr out"
  shows "groupByPeriod (map as_row out) ''day'' = Inr out"
proof -
  note f = groupByPeriod_facts[OF assms]
  have fixed: "\<forall>b\<in>set out. bucket_key ''day'' (as_row b) = Inr (date b)"
  proof
    fix b assume "b \<in> set out"
    then have "date b \<in> set (map date out)" by simp
    then obtain r where "bucket_key ''day'' r = Inr (date b)" unfolding f(3) by blast
    moreover have "date (as_row b) = date b" by (simp add: as_row_def)
    ultimately show "bucket_key ''day'' (as_row b) = Inr (date b)" by (rule day_key_fixed)
  qed
  have "group_loop ''day'' [] (map as_row out) = Inr ([] @ map (\<lambda>b. (date b, b)) out)"
    by (rule regroup[OF f(2) fixed]) simp
  then have "groupByPeriod (map as_row out) ''day'' = Inr (sort_key date out)"
    by (simp add: groupByPeriod_def comp_def)
  then show ?thesis using f(1) by (simp add: sort_key_id_if_sorted)
qed

theorem groupByPeriod_day_idempotent_witness:
  "groupByPeriod
     [\<lparr>date = ''2024-03-01'', views = Some 4, clicks = None, contacts = Some 1,
       calls = None, sales = Some 2\<rparr>,
      \<lparr>date = ''2024-02-29'', views = Some 1, clicks = Some 3, contacts = None,
       calls = Some 1, sales = None\<rparr>,
      \<lparr>date = ''2024-03-01'', views = Some 6, clicks = None, contacts = None,
       calls = Some 2, sales = None\<rparr>] ''day''
   = Inr [\<lparr>date = ''2024-02-29'', views = 1, clicks = 3, contacts = 0, calls = 1, sales = 0\<rparr>,
          \<lparr>date = ''2024-03-01'', views = 10, clicks = 0, contacts = 1, calls = 2, sales = 2\<rparr>]
   \<and> groupByPeriod
       (map as_row
          [\<lparr>date = ''2024-02-29'', views = 1, clicks = 3, contacts = 0, calls = 1, sales = 0\<rparr>,
           \<lparr>date = ''2024-03-01'', views = 10, clicks = 0, contacts = 1, calls = 2, sales = 2\<rparr>])
       ''day''
     = Inr [\<lparr>date = ''2024-02-29'', views = 1, clicks = 3, contacts = 0, calls = 1, sales = 0\<rparr>,
            \<lparr>date = ''2024-03-01'', views = 10, clicks = 0, contacts = 1, calls = 2, sales = 2\<rparr>]"
proof -
  let ?rows = "[\<lparr>date = ''2024-03-01'', views = Some (4::int), clicks = None, contacts = Some (1::int),
                 calls = None, sales = Some (2::int)\<rparr>,
                \<lparr>date = ''2024-02-29'', views = Some 1, clicks = Some 3, contacts = None,
                 calls = Some 1, sales = None\<rparr>,
                \<lparr>date = ''2024-03-01'', views = Some 6, clicks = None, contacts = None,
                 calls = Some 2, sales = None\<rparr>]"
  let ?out = "[\<lparr>date = ''2024-02-29'', views = 1, clicks = 3, contacts = 0, calls = 1, sales = (0::int)\<rparr>,
               \<lparr>date = ''2024-03-01'', views = 10, clicks = 0, contacts = 1, calls = 2, sales = 2\<rparr>]"
  have h: "groupByPeriod ?rows ''day'' = Inr ?out" by code_simp
  from groupByPeriod_day_idempotent[OF h] h show ?thesis by blast
qed

end
